theory Spec2Isabelle
  imports Complex_Main "HOL-Library.Word" "HOL-Library.Log_Nat"
begin

section \<open>The kurtosis data server (BackEnds/data\_server.py)\<close>

text \<open>
  The development follows the module function by function.  Python exceptions are values
  of \<open>py_error\<close>.  A floating-point number is modelled by the rational it stands for,
  and every floating-point operation by the exact operation followed by rounding to the
  format (see the subsection on binary floating point).  A sixteen-bit sample divided by
  4096 is exactly representable in single precision, so the decoder rounds nothing.
  \<open>Unmodelled\<close> marks the two inputs of the averager whose result is not a number or
  depends on the numpy version.
\<close>

datatype py_error =
  StructError | ValueError | IndexError | KeyError | TypeError | AttributeError | OSError
  | Unmodelled

type_synonym byte = "8 word"
type_synonym u16 = "16 word"
type_synonym u32 = "32 word"

datatype chan = I | Q

subsection \<open>Module constants\<close>

definition pkt_size :: nat where
  "pkt_size = 1026 * 64 div 8"

definition num_workers :: nat where
  "num_workers = 16"

definition num_aggregators :: nat where
  "num_aggregators = 4"

definition max_count :: nat where
  "max_count = 5000"

subsection \<open>unscramble\<close>

text \<open>
  \<open>numpy.array(data).reshape((1024,4))\<close> is row major: row \<open>r\<close> holds the four
  words from position \<open>4 * r\<close> on.  It raises ValueError unless there are exactly
  \<open>1024 * 4\<close> words.
\<close>

definition reshape :: "nat \<Rightarrow> nat \<Rightarrow> 'a list \<Rightarrow> py_error + 'a list list" where
  "reshape nrows ncols xs =
     (if length xs = nrows * ncols
      then Inr (map (\<lambda>r. take ncols (drop (r * ncols) xs)) [0..<nrows])
      else Inl ValueError)"

text \<open>\<open>D[:512,c]\<close> and \<open>D[512:,c]\<close>: a column of the upper or the lower half.\<close>

definition column :: "nat \<Rightarrow> 'a list list \<Rightarrow> 'a list" where
  "column c rows = map (\<lambda>row. row ! c) rows"

definition kurt_scale :: "u16 \<Rightarrow> rat" where
  "kurt_scale w = of_nat (unat w) / 4096"

definition unscramble :: "u16 list \<Rightarrow> py_error + ((chan \<Rightarrow> u16 list) \<times> (chan \<Rightarrow> rat list))" where
  "unscramble data =
     (case reshape 1024 4 data of
        Inl e \<Rightarrow> Inl e
      | Inr D \<Rightarrow>
          Inr ((\<lambda>ch. case ch of
                  I \<Rightarrow> column 0 (take 512 D) @ column 1 (take 512 D)
                | Q \<Rightarrow> column 0 (drop 512 D) @ column 1 (drop 512 D)),
               (\<lambda>ch. case ch of
                  I \<Rightarrow> map kurt_scale (column 2 (take 512 D) @ column 3 (take 512 D))
                | Q \<Rightarrow> map kurt_scale (column 2 (drop 512 D) @ column 3 (drop 512 D)))))"

text \<open>
  The specification's matrix: entry \<open>(r, c)\<close> of the payload read as 1024 rows of 4, and
  the four arrays the specification builds from it.
\<close>

definition D_entry :: "'a list \<Rightarrow> nat \<Rightarrow> nat \<Rightarrow> 'a" where
  "D_entry data r c = data ! (4 * r + c)"

definition spec_power :: "u16 list \<Rightarrow> chan \<Rightarrow> u16 list" where
  "spec_power data ch =
     (let r0 = (case ch of I \<Rightarrow> 0 | Q \<Rightarrow> 512)
      in map (\<lambda>r. D_entry data r 0) [r0..<r0 + 512] @ map (\<lambda>r. D_entry data r 1) [r0..<r0 + 512])"

definition spec_kurtosis :: "u16 list \<Rightarrow> chan \<Rightarrow> rat list" where
  "spec_kurtosis data ch =
     (let r0 = (case ch of I \<Rightarrow> 0 | Q \<Rightarrow> 512)
      in map (\<lambda>r. of_nat (unat (D_entry data r 2)) / 4096) [r0..<r0 + 512]
       @ map (\<lambda>r. of_nat (unat (D_entry data r 3)) / 4096) [r0..<r0 + 512])"

subsection \<open>The wire format\<close>

text \<open>
  \<open>pkt_fmt = "!8cHHI" + 1024*4*"H"\<close>: network byte order without padding; eight
  characters, two unsigned shorts, one unsigned int and 4096 unsigned shorts, 8208 bytes
  in all.  \<open>struct.unpack_from\<close> raises \<open>struct.error\<close> on a shorter buffer and
  ignores what follows the first 8208 bytes.
\<close>

definition be16 :: "byte list \<Rightarrow> nat \<Rightarrow> u16" where
  "be16 buf off = push_bit 8 (ucast (buf ! off)) + ucast (buf ! (off + 1))"

definition be32 :: "byte list \<Rightarrow> nat \<Rightarrow> u32" where
  "be32 buf off =
     push_bit 24 (ucast (buf ! off)) + push_bit 16 (ucast (buf ! (off + 1)))
       + push_bit 8 (ucast (buf ! (off + 2))) + ucast (buf ! (off + 3))"

text \<open>The slices of the unpacked tuple the program reads.\<close>

record unpacked =
  result_hdr :: "byte list"
  result_pkt_cnt_sec :: u16
  result_sec_cnt :: u16
  result_raw_pkt_cnt :: u32
  result_data :: "u16 list"

definition unpack_from :: "byte list \<Rightarrow> py_error + unpacked" where
  "unpack_from buf =
     (if length buf < 8208 then Inl StructError
      else Inr \<lparr> result_hdr = take 8 buf,
                 result_pkt_cnt_sec = be16 buf 8,
                 result_sec_cnt = be16 buf 10,
                 result_raw_pkt_cnt = be32 buf 12,
                 result_data = map (\<lambda>k. be16 buf (16 + 2 * k)) [0..<4096] \<rparr>)"

subsection \<open>unscramble\_packet\<close>

text \<open>
  The dictionary \<open>one_second\<close>.  The key \<open>time\<close> is absent until the first packet of
  the batch has been dequeued.
\<close>

record epoch =
  time :: "rat option"
  hdr :: "byte list list"
  pkt_cnt_sec :: "u16 list"
  sec_cnt :: "u16 list"
  raw_pkt_cnt :: "u32 list"
  pwr_I :: "u16 list list"
  krt_I :: "rat list list"
  pwr_Q :: "u16 list list"
  krt_Q :: "rat list list"

definition new_one_second :: epoch where
  "new_one_second = \<lparr> time = None, hdr = [], pkt_cnt_sec = [], sec_cnt = [], raw_pkt_cnt = [],
                       pwr_I = [], krt_I = [], pwr_Q = [], krt_Q = [] \<rparr>"

text \<open>
  An item of the input queue is a buffer together with the reading \<open>time.time()\<close> gives
  just after the buffer has been dequeued.  A queue is the list of items that will ever
  arrive on it; \<open>get\<close> on an exhausted queue blocks for ever.
\<close>

type_synonym queued = "rat \<times> byte list"

datatype 'a loop_result = Blocked | Crashed py_error | Done 'a

text \<open>The inner loop \<open>while count:\<close>, started with \<open>count = max_count\<close>.\<close>

fun collect :: "nat \<Rightarrow> nat \<Rightarrow> epoch \<Rightarrow> queued list \<Rightarrow> (epoch \<times> queued list) loop_result" where
  "collect maxc 0 one_second q = Done (one_second, q)"
| "collect maxc (Suc c) one_second [] = Blocked"
| "collect maxc (Suc c) one_second ((t, pkt_buf) # q) =
     (let s1 = (if Suc c = maxc then one_second\<lparr>time := Some t\<rparr> else one_second)
      in case unpack_from pkt_buf of
           Inl e \<Rightarrow> Crashed e
         | Inr result \<Rightarrow>
             (case unscramble (result_data result) of
                Inl e \<Rightarrow> Crashed e
              | Inr (pwr, kurtsis) \<Rightarrow>
                  collect maxc c
                    (s1\<lparr> hdr := hdr s1 @ [result_hdr result],
                         pkt_cnt_sec := pkt_cnt_sec s1 @ [result_pkt_cnt_sec result],
                         sec_cnt := sec_cnt s1 @ [result_sec_cnt result],
                         raw_pkt_cnt := raw_pkt_cnt s1 @ [result_raw_pkt_cnt result],
                         pwr_I := pwr_I s1 @ [pwr I],
                         krt_I := krt_I s1 @ [kurtsis I],
                         pwr_Q := pwr_Q s1 @ [pwr Q],
                         krt_Q := krt_Q s1 @ [kurtsis Q] \<rparr>) q))"

text \<open>
  The outer \<open>while True:\<close>.  The value is the list of dictionaries put on the output
  queue during at most \<open>fuel\<close> rounds; a round that blocks or dies puts nothing, and
  nothing follows it.
\<close>

fun unscramble_packet :: "nat \<Rightarrow> nat \<Rightarrow> queued list \<Rightarrow> epoch list" where
  "unscramble_packet 0 maxc q = []"
| "unscramble_packet (Suc fuel) maxc q =
     (case collect maxc maxc new_one_second q of
        Done (one_second, q') \<Rightarrow> one_second # unscramble_packet fuel maxc q'
      | _ \<Rightarrow> [])"

text \<open>
  What the loop body computes from one buffer: the unpacked tuple and the two
  dictionaries of \<open>unscramble\<close>; \<open>None\<close> where either raises.
\<close>

definition decode :: "byte list \<Rightarrow> (unpacked \<times> (chan \<Rightarrow> u16 list) \<times> (chan \<Rightarrow> rat list)) option" where
  "decode buf =
     (case unpack_from buf of
        Inl e \<Rightarrow> None
      | Inr result \<Rightarrow>
          (case unscramble (result_data result) of
             Inl e \<Rightarrow> None
           | Inr (pw, ku) \<Rightarrow> Some (result, pw, ku)))"

subsection \<open>get\_packet\<close>

text \<open>
  The socket is the list of buffers \<open>recvfrom\<close> will return; on an exhausted socket
  \<open>recvfrom\<close> blocks for ever (\<open>None\<close> below).  The value of each loop is the list of
  \<open>put\<close> calls it makes, in order, as pairs of the queue's index and the data.
\<close>

fun recv_batch :: "nat \<Rightarrow> nat \<Rightarrow> 'a list \<Rightarrow> (nat \<times> 'a) list \<times> 'a list option" where
  "recv_batch unpacker 0 sock = ([], Some sock)"
| "recv_batch unpacker (Suc n) [] = ([], None)"
| "recv_batch unpacker (Suc n) (data # sock) =
     (case recv_batch unpacker n sock of (puts, rest) \<Rightarrow> ((unpacker, data) # puts, rest))"

fun serve_workers :: "nat list \<Rightarrow> nat \<Rightarrow> 'a list \<Rightarrow> (nat \<times> 'a) list \<times> 'a list option" where
  "serve_workers [] maxc sock = ([], Some sock)"
| "serve_workers (unpacker # us) maxc sock =
     (case recv_batch unpacker maxc sock of
        (puts, None) \<Rightarrow> (puts, None)
      | (puts, Some rest) \<Rightarrow>
          (case serve_workers us maxc rest of (puts', rest') \<Rightarrow> (puts @ puts', rest')))"

fun get_packet :: "nat \<Rightarrow> nat \<Rightarrow> nat \<Rightarrow> 'a list \<Rightarrow> (nat \<times> 'a) list" where
  "get_packet 0 nworkers maxc sock = []"
| "get_packet (Suc fuel) nworkers maxc sock =
     (case serve_workers [0..<nworkers] maxc sock of
        (puts, None) \<Rightarrow> puts
      | (puts, Some rest) \<Rightarrow> puts @ get_packet fuel nworkers maxc rest)"

text \<open>What a sequence of \<open>put\<close> calls leaves on one queue.\<close>

definition queue_contents :: "nat \<Rightarrow> (nat \<times> 'a) list \<Rightarrow> 'a list" where
  "queue_contents w puts = map snd (filter (\<lambda>p. fst p = w) puts)"

subsection \<open>The monitor files and average\_one\_second\<close>

text \<open>
  A resizable HDF5 dataset is the list of its rows.  \<open>resize\<close> along axis 0 truncates,
  or extends with the fill value; an assignment at an index outside the dataset raises;
  a one-dimensional array assigned to a row 1024 wide must have 1024 elements or one
  element (which numpy broadcasts).
\<close>

definition resize :: "nat \<Rightarrow> 'a \<Rightarrow> 'a list \<Rightarrow> 'a list" where
  "resize n fill xs = take n xs @ replicate (n - length xs) fill"

definition setitem :: "'a list \<Rightarrow> nat \<Rightarrow> 'a \<Rightarrow> py_error + 'a list" where
  "setitem xs i v = (if i < length xs then Inr (xs[i := v]) else Inl IndexError)"

definition as_row :: "rat list \<Rightarrow> py_error + rat list" where
  "as_row v =
     (if length v = 1024 then Inr v
      else if length v = 1 then Inr (replicate 1024 (hd v))
      else Inl TypeError)"

text \<open>
  The dataset \<open>pkt cnt\<close> has \<open>dtype=numpy.int32\<close>, and the counter it receives is the
  unsigned 32-bit field of the packet: the same 32 bits, read in two's complement.
\<close>

definition int32_cast :: "int \<Rightarrow> int" where
  "int32_cast x = sint (word_of_int x :: 32 word)"

subsection \<open>Binary floating point\<close>

text \<open>
  Rounding to the nearest number with a significand of \<open>p\<close> bits, ties to the even
  significand, as IEEE 754 prescribes for \<open>float32\<close> (\<open>p = 24\<close>) and \<open>float64\<close>
  (\<open>p = 53\<close>).  The exponent range is not modelled: the numbers the averager meets are 0
  or lie between \<open>2^-36\<close> and \<open>2^40\<close> for batches of fewer than \<open>2^24\<close> packets, well
  inside the normal range of both formats.
\<close>

definition pow2 :: "int \<Rightarrow> rat" where
  "pow2 k = (if 0 \<le> k then 2 ^ nat k else 1 / 2 ^ nat (- k))"

text \<open>For \<open>x > 0\<close>, the exponent \<open>e\<close> with \<open>2^e \<le> x < 2^(e+1)\<close>.\<close>

definition ilog2 :: "rat \<Rightarrow> int" where
  "ilog2 x =
     (case quotient_of x of (a, b) \<Rightarrow>
        let d = bitlen a - bitlen b in if pow2 d \<le> x then d else d - 1)"

definition round_even :: "rat \<Rightarrow> int" where
  "round_even q =
     (let f = \<lfloor>q\<rfloor>; r = q - of_int f
      in if r < 1 / 2 then f else if 1 / 2 < r then f + 1 else if even f then f else f + 1)"

definition round_sig :: "nat \<Rightarrow> rat \<Rightarrow> rat" where
  "round_sig p x =
     (if x = 0 then 0
      else let u = pow2 (ilog2 \<bar>x\<bar> - int p + 1) in of_int (round_even (x / u)) * u)"

definition float32 :: "rat \<Rightarrow> rat" where
  "float32 = round_sig 24"

definition float64 :: "rat \<Rightarrow> rat" where
  "float64 = round_sig 53"

subsection \<open>numpy's mean\<close>

text \<open>
  \<open>numpy.add.reduce\<close> along axis 0 of a two-dimensional array in the format with
  rounding \<open>rnd\<close>: the rows are added one after the other to the first, each sum
  rounded.
\<close>

definition np_sum :: "(rat \<Rightarrow> rat) \<Rightarrow> rat list \<Rightarrow> rat" where
  "np_sum rnd xs = (case xs of [] \<Rightarrow> 0 | x # ys \<Rightarrow> foldl (\<lambda>acc y. rnd (acc + y)) x ys)"

text \<open>
  \<open>numpy.array(rows).mean(axis=0)\<close>: the sum along axis 0 divided by the number of rows,
  in the format with rounding \<open>rnd\<close> (\<open>float64\<close> for an array of integers, the array's
  own format for \<open>float32\<close>).  The mean of no rows (a row of NaN) and of rows of
  different lengths (an object array, or ValueError, by the numpy version) are not
  modelled; the worker emits neither.
\<close>

definition mean_axis0 :: "(rat \<Rightarrow> rat) \<Rightarrow> rat list list \<Rightarrow> py_error + rat list" where
  "mean_axis0 rnd rows =
     (case rows of
        [] \<Rightarrow> Inl Unmodelled
      | r # _ \<Rightarrow>
          if list_all (\<lambda>x. length x = length r) rows
          then Inr (map (\<lambda>j. rnd (np_sum rnd (map (\<lambda>x. x ! j) rows) / rnd (of_nat (length rows))))
                      [0..<length r])
          else Inl Unmodelled)"

text \<open>
  One monitor file: the datasets \<open>time\<close> (\<open>float64\<close>), \<open>pkt cnt\<close> (\<open>int32\<close>),
  \<open>power\<close> and \<open>kurtosis\<close> (created without a \<open>dtype\<close>, which makes them
  \<open>float32\<close>), which the module keeps in the global dictionaries \<open>aqtime\<close>,
  \<open>pkt_cnt\<close>, \<open>power\<close> and \<open>kurtosis\<close>, keyed by the channel.  The mean of the
  power samples is a \<open>float64\<close> array and is converted to \<open>float32\<close> when it is
  assigned to a row; the mean of the kurtosis samples is \<open>float32\<close> already.
\<close>

record monitor_file =
  aqtime :: "rat list"
  pkt_cnt :: "int list"
  power_ds :: "rat list list"
  kurtosis :: "rat list list"

definition open_monitor_files :: "chan \<Rightarrow> monitor_file" where
  "open_monitor_files =
     (\<lambda>RF. \<lparr> aqtime = [0], pkt_cnt = [0],
              power_ds = [replicate 1024 0], kurtosis = [replicate 1024 0] \<rparr>)"

text \<open>The lists \<open>one_second['pwr-'+IF]\<close> and \<open>one_second['krt-'+IF]\<close>.\<close>

definition pwr :: "epoch \<Rightarrow> chan \<Rightarrow> rat list list" where
  "pwr one_second IF =
     map (map (\<lambda>w. of_nat (unat w))) (case IF of I \<Rightarrow> pwr_I one_second | Q \<Rightarrow> pwr_Q one_second)"

definition krt :: "epoch \<Rightarrow> chan \<Rightarrow> rat list list" where
  "krt one_second IF = (case IF of I \<Rightarrow> krt_I one_second | Q \<Rightarrow> krt_Q one_second)"

text \<open>
  The block under \<open>if counter:\<close>: each of the four datasets is resized to
  \<open>counter + 1\<close> rows; nothing is resized for the first row.
\<close>

definition grow :: "nat \<Rightarrow> monitor_file \<Rightarrow> monitor_file" where
  "grow counter f =
     (if counter \<noteq> 0
      then \<lparr> aqtime = resize (counter + 1) 0 (aqtime f),
             pkt_cnt = resize (counter + 1) 0 (pkt_cnt f),
             power_ds = resize (counter + 1) (replicate 1024 0) (power_ds f),
             kurtosis = resize (counter + 1) (replicate 1024 0) (kurtosis f) \<rparr>
      else f)"

text \<open>The body of \<open>for IF in ['I', 'Q']\<close> for one channel.\<close>

definition write_row :: "nat \<Rightarrow> epoch \<Rightarrow> rat \<Rightarrow> u32 \<Rightarrow> chan \<Rightarrow> monitor_file \<Rightarrow> py_error + monitor_file" where
  "write_row counter one_second t first_cnt IF f =
     (let f1 = grow counter f
      in case setitem (aqtime f1) counter t of
           Inl e \<Rightarrow> Inl e
         | Inr a \<Rightarrow>
        (case setitem (pkt_cnt f1) counter (int32_cast (uint first_cnt)) of
           Inl e \<Rightarrow> Inl e
         | Inr c \<Rightarrow>
        (case mean_axis0 float64 (pwr one_second IF) of
           Inl e \<Rightarrow> Inl e
         | Inr mp \<Rightarrow>
        (case as_row mp of
           Inl e \<Rightarrow> Inl e
         | Inr rp \<Rightarrow>
        (case setitem (power_ds f1) counter (map float32 rp) of
           Inl e \<Rightarrow> Inl e
         | Inr p \<Rightarrow>
        (case mean_axis0 float32 (krt one_second IF) of
           Inl e \<Rightarrow> Inl e
         | Inr mk \<Rightarrow>
        (case as_row mk of
           Inl e \<Rightarrow> Inl e
         | Inr rk \<Rightarrow>
        (case setitem (kurtosis f1) counter rk of
           Inl e \<Rightarrow> Inl e
         | Inr k \<Rightarrow> Inr \<lparr> aqtime = a, pkt_cnt = c, power_ds = p, kurtosis = k \<rparr>))))))))"

text \<open>
  What the averager does with one dequeued dictionary.  The two logging calls read
  \<open>one_second['time']\<close> and \<open>one_second['raw pkt cnt'][0]\<close> before anything is written.
\<close>

definition average_epoch :: "nat \<Rightarrow> epoch \<Rightarrow> (chan \<Rightarrow> monitor_file) \<Rightarrow> py_error + (chan \<Rightarrow> monitor_file)" where
  "average_epoch counter one_second files =
     (case time one_second of
        None \<Rightarrow> Inl KeyError
      | Some t \<Rightarrow>
     (case raw_pkt_cnt one_second of
        [] \<Rightarrow> Inl IndexError
      | first_cnt # _ \<Rightarrow>
     (case write_row counter one_second t first_cnt I (files I) of
        Inl e \<Rightarrow> Inl e
      | Inr fI \<Rightarrow>
     (case write_row counter one_second t first_cnt Q (files Q) of
        Inl e \<Rightarrow> Inl e
      | Inr fQ \<Rightarrow> Inr (files (I := fI, Q := fQ))))))"

text \<open>
  The loop \<open>while working.value\<close>, over the dictionaries it dequeues before the flag is
  cleared; the value is the counter and the files at that moment.
\<close>

fun average_loop :: "nat \<Rightarrow> (chan \<Rightarrow> monitor_file) \<Rightarrow> epoch list \<Rightarrow> py_error + (nat \<times> (chan \<Rightarrow> monitor_file))" where
  "average_loop counter files [] = Inr (counter, files)"
| "average_loop counter files (one_second # inqueue) =
     (case average_epoch counter one_second files of
        Inl e \<Rightarrow> Inl e
      | Inr files' \<Rightarrow> average_loop (counter + 1) files' inqueue)"

definition average_one_second :: "epoch list \<Rightarrow> py_error + (nat \<times> (chan \<Rightarrow> monitor_file))" where
  "average_one_second inqueue = average_loop 0 open_monitor_files inqueue"

text \<open>Reading row \<open>k\<close> of the dataset \<open>pkt cnt\<close> back from what the averager produced.\<close>

definition read_pkt_cnt :: "py_error + (chan \<Rightarrow> monitor_file) \<Rightarrow> chan \<Rightarrow> nat \<Rightarrow> int option" where
  "read_pkt_cnt r RF k = (case r of Inl e \<Rightarrow> None | Inr files \<Rightarrow> Some (pkt_cnt (files RF) ! k))"

text \<open>
  A dictionary as a worker with batch size one would emit it, with capture time \<open>t\<close>
  and raw packet counter \<open>c\<close>, for use in examples.
\<close>

definition test_epoch :: "rat \<Rightarrow> u32 \<Rightarrow> epoch" where
  "test_epoch t c =
     \<lparr> time = Some t, hdr = [replicate 8 0], pkt_cnt_sec = [0], sec_cnt = [0],
       raw_pkt_cnt = [c],
       pwr_I = [replicate 1024 1], krt_I = [replicate 1024 (1 / 2)],
       pwr_Q = [replicate 1024 3], krt_Q = [replicate 1024 (1 / 4)] \<rparr>"

text \<open>Reading entry \<open>j\<close> of row \<open>k\<close> of the dataset \<open>power\<close> back.\<close>

definition read_power :: "py_error + (chan \<Rightarrow> monitor_file) \<Rightarrow> chan \<Rightarrow> nat \<Rightarrow> nat \<Rightarrow> rat option" where
  "read_power r RF k j = (case r of Inl e \<Rightarrow> None | Inr files \<Rightarrow> Some (power_ds (files RF) ! k ! j))"

text \<open>
  A dictionary of three packets whose power samples in channel I are 1, 2 and 2
  throughout, with raw packet counters \<open>c\<close>, \<open>c + 1\<close> and \<open>c + 2\<close>.
\<close>

definition three_packets :: "rat \<Rightarrow> u32 \<Rightarrow> epoch" where
  "three_packets t c =
     \<lparr> time = Some t, hdr = replicate 3 (replicate 8 0), pkt_cnt_sec = [0, 1, 2],
       sec_cnt = [0, 0, 0], raw_pkt_cnt = [c, c + 1, c + 2],
       pwr_I = [replicate 1024 1, replicate 1024 2, replicate 1024 2],
       krt_I = replicate 3 (replicate 1024 (1 / 2)),
       pwr_Q = replicate 3 (replicate 1024 3),
       krt_Q = replicate 3 (replicate 1024 (1 / 4)) \<rparr>"

text \<open>
  A dictionary as the worker emits it for a batch of at least one packet: it has a time,
  and each list has an entry per packet, the sample arrays being 1024 wide.
\<close>

definition well_formed :: "epoch \<Rightarrow> bool" where
  "well_formed one_second \<longleftrightarrow>
     time one_second \<noteq> None \<and> raw_pkt_cnt one_second \<noteq> []
     \<and> pwr_I one_second \<noteq> [] \<and> list_all (\<lambda>row. length row = 1024) (pwr_I one_second)
     \<and> krt_I one_second \<noteq> [] \<and> list_all (\<lambda>row. length row = 1024) (krt_I one_second)
     \<and> pwr_Q one_second \<noteq> [] \<and> list_all (\<lambda>row. length row = 1024) (pwr_Q one_second)
     \<and> krt_Q one_second \<noteq> [] \<and> list_all (\<lambda>row. length row = 1024) (krt_Q one_second)"

text \<open>All four datasets of a file have \<open>n\<close> rows.\<close>

definition sized :: "nat \<Rightarrow> monitor_file \<Rightarrow> bool" where
  "sized n f \<longleftrightarrow> length (aqtime f) = n \<and> length (pkt_cnt f) = n
                 \<and> length (power_ds f) = n \<and> length (kurtosis f) = n"

text \<open>The specification's mean over the batch dimension, entry by entry.\<close>

definition spec_mean :: "rat list list \<Rightarrow> nat \<Rightarrow> rat" where
  "spec_mean rows j = (\<Sum>i<length rows. rows ! i ! j) / of_nat (length rows)"

subsection \<open>Wall-clock time\<close>

text \<open>
  \<open>time.gmtime\<close> of a floating-point number of seconds: the number is cut to a whole
  number of seconds towards zero, and the fields are those of UTC without leap seconds.
\<close>

definition to_time_t :: "rat \<Rightarrow> int" where
  "to_time_t x = (if 0 \<le> x then \<lfloor>x\<rfloor> else \<lceil>x\<rceil>)"

definition tm_hour :: "int \<Rightarrow> int" where
  "tm_hour s = (s mod 86400) div 3600"

definition tm_min :: "int \<Rightarrow> int" where
  "tm_min s = (s mod 3600) div 60"

definition tm_sec :: "int \<Rightarrow> int" where
  "tm_sec s = s mod 60"

subsection \<open>KurtosisDataServer: the end time and run\<close>

text \<open>
  The end of \<open>__init__\<close>: \<open>endtime\<close> is a pair of hour and minute, or \<open>None\<close>; the
  value is \<open>(endhr, endmin, endsec)\<close>.
\<close>

definition init_endtime :: "(int \<times> int) option \<Rightarrow> rat \<Rightarrow> int \<times> int \<times> int" where
  "init_endtime endtime now =
     (case endtime of
        Some (h, m) \<Rightarrow> (h, m, 0)
      | None \<Rightarrow> (tm_hour (to_time_t now) + 1, 0, 0))"

text \<open>The test in \<open>run\<close> on the time of a dequeued dictionary.\<close>

definition end_reached :: "int \<times> int \<times> int \<Rightarrow> rat \<Rightarrow> bool" where
  "end_reached end_hms t =
     (case end_hms of (endhr, endmin, endsec) \<Rightarrow>
        tm_hour (to_time_t t) = endhr \<and> tm_min (to_time_t t) = endmin
          \<and> tm_sec (to_time_t t) = endsec)"

text \<open>
  What \<open>run\<close> changes: the monitor queue, the groups of the HDF5 file (each named by the
  group number it was created under, holding the dictionary) and \<open>grpnum\<close>.
\<close>

record recorder =
  monitor_queue :: "epoch list"
  groups :: "(nat \<times> epoch) list"
  grpnum :: nat

definition new_recorder :: recorder where
  "new_recorder = \<lparr> monitor_queue = [], groups = [], grpnum = 0 \<rparr>"

text \<open>
  What \<open>self.ordered_queue.get()\<close> does in one iteration: it returns a dictionary, or
  the process is interrupted from the keyboard while it waits.  On an exhausted queue
  it waits for ever.
\<close>

datatype event = Got epoch | KeyboardInterrupt

datatype loop_exit = Waiting | EndTime | Interrupted | Uncaught py_error

fun run_loop :: "int \<times> int \<times> int \<Rightarrow> recorder \<Rightarrow> event list \<Rightarrow> loop_exit \<times> recorder" where
  "run_loop end_hms st [] = (Waiting, st)"
| "run_loop end_hms st (KeyboardInterrupt # evs) = (Interrupted, st)"
| "run_loop end_hms st (Got one_second # evs) =
     (case time one_second of
        None \<Rightarrow> (Uncaught KeyError, st)
      | Some t \<Rightarrow>
          if end_reached end_hms t then (EndTime, st)
          else run_loop end_hms
                 (st\<lparr> monitor_queue := monitor_queue st @ [one_second],
                      groups := groups st @ [(grpnum st, one_second)],
                      grpnum := grpnum st + 1 \<rparr>) evs)"

text \<open>The recorder after \<open>es\<close> have been forwarded and written, one group each.\<close>

definition recorded :: "recorder \<Rightarrow> epoch list \<Rightarrow> recorder" where
  "recorded st es =
     \<lparr> monitor_queue = monitor_queue st @ es,
       groups = groups st @ zip [grpnum st..<grpnum st + length es] es,
       grpnum = grpnum st + length es \<rparr>"

subsection \<open>KurtosisDataServer: shutdown\<close>

text \<open>
  The calls \<open>_terminate\<close> makes on the child processes, the shared flag and the socket.
  Which of them raises, and what, is given by the environment.
\<close>

datatype action =
  TerminateReader | TerminateUnpacker nat | TerminateAggregator nat
  | ClearAveraging | Sleep | TerminateAverager | CloseSocket

datatype trace_item = Call action | LogDone action | LogFailed action

text \<open>The body of a \<open>try\<close>: the calls in order, up to the first that raises.\<close>

fun try_body :: "(action \<Rightarrow> py_error option) \<Rightarrow> action list \<Rightarrow> trace_item list \<times> (action \<times> py_error) option" where
  "try_body env [] = ([], None)"
| "try_body env (a # as) =
     (case env a of
        Some e \<Rightarrow> ([Call a], Some (a, e))
      | None \<Rightarrow> (case try_body env as of (tr, r) \<Rightarrow> (Call a # tr, r)))"

text \<open>
  A \<open>try\<close> with its \<open>except\<close> clauses: after the body the success is logged; an
  exception the clauses name is logged; any other exception leaves the procedure.
\<close>

definition guarded :: "(action \<Rightarrow> py_error option) \<Rightarrow> action list \<times> (py_error \<Rightarrow> bool) \<Rightarrow> trace_item list \<times> py_error option" where
  "guarded env blk =
     (case blk of (body, caught) \<Rightarrow>
        (case try_body env body of
           (tr, None) \<Rightarrow> (tr @ [LogDone (last body)], None)
         | (tr, Some (a, e)) \<Rightarrow>
             if caught e then (tr @ [LogFailed a], None) else (tr, Some e)))"

fun run_blocks :: "(action \<Rightarrow> py_error option) \<Rightarrow> (action list \<times> (py_error \<Rightarrow> bool)) list \<Rightarrow> trace_item list \<times> py_error option" where
  "run_blocks env [] = ([], None)"
| "run_blocks env (blk # blks) =
     (case guarded env blk of
        (tr, Some e) \<Rightarrow> (tr, Some e)
      | (tr, None) \<Rightarrow> (case run_blocks env blks of (tr', r) \<Rightarrow> (tr @ tr', r)))"

definition stop_blocks :: "(action list \<times> (py_error \<Rightarrow> bool)) list" where
  "stop_blocks =
     [([TerminateReader], \<lambda>e. e = AttributeError)]
     @ map (\<lambda>count. ([TerminateUnpacker count], \<lambda>e. e = AttributeError)) [0..<num_workers]
     @ map (\<lambda>count. ([TerminateAggregator count], \<lambda>e. e = AttributeError)) [0..<num_aggregators]
     @ [([ClearAveraging, Sleep, TerminateAverager], \<lambda>e. e = ValueError \<or> e = AttributeError),
        ([CloseSocket], \<lambda>e. True)]"

definition terminate :: "(action \<Rightarrow> py_error option) \<Rightarrow> trace_item list \<times> py_error option" where
  "terminate env = run_blocks env stop_blocks"

text \<open>The end of \<open>run\<close>: the flag is cleared, then \<open>_terminate\<close> is called.\<close>

definition run_shutdown :: "(action \<Rightarrow> py_error option) \<Rightarrow> trace_item list \<times> py_error option" where
  "run_shutdown env =
     (case env ClearAveraging of
        Some e \<Rightarrow> ([Call ClearAveraging], Some e)
      | None \<Rightarrow> (case terminate env of (tr, r) \<Rightarrow> (Call ClearAveraging # tr, r)))"

definition calls :: "trace_item list \<Rightarrow> action list" where
  "calls tr = concat (map (\<lambda>i. case i of Call a \<Rightarrow> [a] | _ \<Rightarrow> []) tr)"

definition no_failure :: "action \<Rightarrow> py_error option" where
  "no_failure = (\<lambda>a. None)"

text \<open>A block in which only the last call may raise, and only what the block catches.\<close>

definition tolerated :: "(action \<Rightarrow> py_error option) \<Rightarrow> action list \<times> (py_error \<Rightarrow> bool) \<Rightarrow> bool" where
  "tolerated env blk \<longleftrightarrow>
     (case blk of (body, caught) \<Rightarrow>
        body \<noteq> [] \<and> (\<forall>a \<in> set (butlast body). env a = None)
        \<and> (case env (last body) of None \<Rightarrow> True | Some e \<Rightarrow> caught e))"

subsection \<open>KurtosisDataServer: the first packet\<close>

text \<open>
  \<open>recvfrom\<close> under the timeout of two seconds either times out or returns a buffer.
  On the timeout the server logs an error and calls \<open>sys.exit(1)\<close>; an exception of
  \<open>unpack_from\<close> is not caught.  The value is \<open>self.signal\<close> for I and for Q.
\<close>

datatype recv = Timeout | Datagram "byte list"

datatype 'a startup = Exit nat | Died py_error | Proceeds 'a

definition sniff_signal :: "recv \<Rightarrow> (byte list \<times> byte list) startup" where
  "sniff_signal r =
     (case r of
        Timeout \<Rightarrow> Exit 1
      | Datagram data \<Rightarrow>
          (case unpack_from data of
             Inl e \<Rightarrow> Died e
           | Inr packet \<Rightarrow>
               Proceeds (take 4 (result_hdr packet), take 4 (drop 4 (result_hdr packet)))))"

text \<open>
  \<open>self.dss\<close> and \<open>self.band\<close>: characters 1 and 2 of each code go through Python's
  \<open>int\<close>, which is a parameter here (\<open>None\<close> where it raises ValueError).
\<close>

record identity =
  signal_I :: "byte list"
  signal_Q :: "byte list"
  dss_I :: int
  dss_Q :: int
  band_I :: byte
  band_Q :: byte

definition identify :: "(byte list \<Rightarrow> int option) \<Rightarrow> recv \<Rightarrow> identity startup" where
  "identify py_int r =
     (case sniff_signal r of
        Exit n \<Rightarrow> Exit n
      | Died e \<Rightarrow> Died e
      | Proceeds (sI, sQ) \<Rightarrow>
          (case py_int (take 2 (drop 1 sI)) of
             None \<Rightarrow> Died ValueError
           | Some dI \<Rightarrow>
               (case py_int (take 2 (drop 1 sQ)) of
                  None \<Rightarrow> Died ValueError
                | Some dQ \<Rightarrow>
                    Proceeds \<lparr> signal_I = sI, signal_Q = sQ, dss_I = dI, dss_Q = dQ,
                               band_I = sI ! 0, band_Q = sQ ! 0 \<rparr>)))"

section \<open>Properties\<close>

lemma reshape_row:
  assumes "length xs = nrows * ncols" and "r < nrows" and "c < ncols"
  shows "(take ncols (drop (r * ncols) xs)) ! c = xs ! (r * ncols + c)"
  using assms by simp

lemma column_take_reshaped:
  assumes "length data = 4096" and "c < 4"
  shows "column c (take 512 (map (\<lambda>r. take 4 (drop (r * 4) data)) [0..<1024]))
         = map (\<lambda>r. D_entry data r c) [0..<512]"
  using assms by (simp add: column_def take_map D_entry_def mult.commute)

lemma column_drop_reshaped:
  assumes "length data = 4096" and "c < 4"
  shows "column c (drop 512 (map (\<lambda>r. take 4 (drop (r * 4) data)) [0..<1024]))
         = map (\<lambda>r. D_entry data r c) [512..<1024]"
  using assms by (simp add: column_def drop_map D_entry_def mult.commute)

lemma reshape_4096:
  assumes "length data = 4096"
  shows "reshape 1024 4 data = Inr (map (\<lambda>r. take 4 (drop (r * 4) data)) [0..<1024])"
  using assms by (simp add: reshape_def)

lemma kurt_scale_map:
  "map kurt_scale (map (\<lambda>r. D_entry data r c) rs)
   = map (\<lambda>r. of_nat (unat (D_entry data r c)) / 4096) rs"
  by (simp add: kurt_scale_def comp_def)

text \<open>
  C1.  For a payload of 4096 sixteen-bit words, \<open>unscramble\<close> succeeds and returns the four
  arrays the specification names: power I and Q are columns 0 and 1 of the upper and the
  lower 512 rows of the 1024 by 4 matrix, kurtosis I and Q are columns 2 and 3 of the same
  rows divided by 4096, and each array has 1024 elements.  The result is a function of the
  payload alone.
\<close>

theorem unscramble_decodes:
  assumes "length data = 4096"
  shows "\<exists>power kurt. unscramble data = Inr (power, kurt)
           \<and> power I = spec_power data I \<and> power Q = spec_power data Q
           \<and> kurt I = spec_kurtosis data I \<and> kurt Q = spec_kurtosis data Q
           \<and> length (power I) = 1024 \<and> length (power Q) = 1024
           \<and> length (kurt I) = 1024 \<and> length (kurt Q) = 1024"
proof -
  let ?D = "map (\<lambda>r. take 4 (drop (r * 4) data)) [0..<1024]"
  let ?P = "\<lambda>ch. case ch of
               I \<Rightarrow> column 0 (take 512 ?D) @ column 1 (take 512 ?D)
             | Q \<Rightarrow> column 0 (drop 512 ?D) @ column 1 (drop 512 ?D)"
  let ?K = "\<lambda>ch. case ch of
               I \<Rightarrow> map kurt_scale (column 2 (take 512 ?D) @ column 3 (take 512 ?D))
             | Q \<Rightarrow> map kurt_scale (column 2 (drop 512 ?D) @ column 3 (drop 512 ?D))"
  have up: "column c (take 512 ?D) = map (\<lambda>r. D_entry data r c) [0..<512]" if "c < 4" for c
    using column_take_reshaped [OF assms that] .
  have lo: "column c (drop 512 ?D) = map (\<lambda>r. D_entry data r c) [512..<1024]" if "c < 4" for c
    using column_drop_reshaped [OF assms that] .
  have res: "unscramble data = Inr (?P, ?K)"
    unfolding unscramble_def reshape_4096 [OF assms] by (simp only: sum.case)
  have pI: "?P I = spec_power data I"
    by (simp add: up spec_power_def del: One_nat_def)
  have pQ: "?P Q = spec_power data Q"
    by (simp add: lo spec_power_def del: One_nat_def)
  have kI: "?K I = spec_kurtosis data I"
    by (simp add: up spec_kurtosis_def kurt_scale_def comp_def)
  have kQ: "?K Q = spec_kurtosis data Q"
    by (simp add: lo spec_kurtosis_def kurt_scale_def comp_def)
  have lp: "length (spec_power data ch) = 1024" for ch
    by (cases ch) (simp_all add: spec_power_def)
  have lk: "length (spec_kurtosis data ch) = 1024" for ch
    by (cases ch) (simp_all add: spec_kurtosis_def)
  have "?P I = spec_power data I \<and> ?P Q = spec_power data Q
        \<and> ?K I = spec_kurtosis data I \<and> ?K Q = spec_kurtosis data Q
        \<and> length (?P I) = 1024 \<and> length (?P Q) = 1024
        \<and> length (?K I) = 1024 \<and> length (?K Q) = 1024"
    unfolding pI pQ kI kQ lp lk by simp
  with res show ?thesis by blast
qed

theorem unscramble_decodes_witness:
  "length (replicate 4096 (7::u16)) = 4096
   \<and> (\<exists>power kurt. unscramble (replicate 4096 7) = Inr (power, kurt)
        \<and> power I = spec_power (replicate 4096 7) I \<and> power Q = spec_power (replicate 4096 7) Q
        \<and> kurt I = spec_kurtosis (replicate 4096 7) I \<and> kurt Q = spec_kurtosis (replicate 4096 7) Q
        \<and> length (power I) = 1024 \<and> length (power Q) = 1024
        \<and> length (kurt I) = 1024 \<and> length (kurt Q) = 1024)"
proof -
  have h: "length (replicate 4096 (7::u16)) = 4096" by simp
  from unscramble_decodes [OF h] h show ?thesis by (rule_tac conjI)
qed

subsection \<open>The unpacker worker\<close>


lemma unpack_from_data_len:
  "unpack_from buf = Inr r \<Longrightarrow> length (result_data r) = 4096"
  by (auto simp: unpack_from_def split: if_splits)

lemma unpack_from_hdr:
  "unpack_from buf = Inr r \<Longrightarrow> result_hdr r = take 8 buf"
  by (auto simp: unpack_from_def split: if_splits)

lemma unscramble_total:
  assumes "length data = 4096"
  shows "\<exists>p k. unscramble data = Inr (p, k)"
  by (simp add: unscramble_def reshape_4096 [OF assms])

lemma unpack_from_total:
  assumes "8208 \<le> length buf"
  shows "\<exists>r. unpack_from buf = Inr r \<and> length (result_data r) = 4096"
  using assms by (simp add: unpack_from_def)

lemma collect_wellformed:
  assumes "\<forall>x \<in> set (take c q). 8208 \<le> length (snd x)" and "c \<le> length q"
  shows "\<exists>ep'. collect maxc c ep q = Done (ep', drop c q)"
  using assms
proof (induction maxc c ep q rule: collect.induct)
  case (1 maxc one_second q)
  then show ?case by simp
next
  case (2 maxc c one_second)
  then show ?case by simp
next
  case (3 maxc c one_second t pkt_buf q)
  from "3.prems" have len: "8208 \<le> length pkt_buf" by simp
  from unpack_from_total [OF len] obtain r where
    r: "unpack_from pkt_buf = Inr r" "length (result_data r) = 4096" by blast
  from unscramble_total [OF r(2)] obtain p k where
    u: "unscramble (result_data r) = Inr (p, k)" by blast
  from "3.prems" have rest: "\<forall>x \<in> set (take c q). 8208 \<le> length (snd x)" "c \<le> length q"
    by simp_all
  show ?case
    using "3.IH" [OF refl r(1) u refl rest] r(1) u by (simp add: Let_def)
qed

lemma collect_Done:
  assumes "collect maxc c ep q = Done (ep', q')"
  shows "c \<le> length q \<and> q' = drop c q
         \<and> hdr ep' = hdr ep @ map (\<lambda>x. take 8 (snd x)) (take c q)
         \<and> length (pkt_cnt_sec ep') = length (pkt_cnt_sec ep) + c
         \<and> length (sec_cnt ep') = length (sec_cnt ep) + c
         \<and> length (raw_pkt_cnt ep') = length (raw_pkt_cnt ep) + c
         \<and> length (pwr_I ep') = length (pwr_I ep) + c
         \<and> length (krt_I ep') = length (krt_I ep) + c
         \<and> length (pwr_Q ep') = length (pwr_Q ep) + c
         \<and> length (krt_Q ep') = length (krt_Q ep) + c"
  using assms
proof (induction maxc c ep q rule: collect.induct)
  case (1 maxc one_second q)
  then show ?case by simp
next
  case (2 maxc c one_second)
  then show ?case by simp
next
  case (3 maxc c one_second t pkt_buf q)
  then show ?case
    by (auto simp: Let_def unpack_from_hdr split: sum.splits prod.splits if_splits)
qed


lemma collect_new_Done:
  assumes "collect b b new_one_second q = Done (ep, q')"
  shows "b \<le> length q \<and> q' = drop b q
         \<and> hdr ep = map (\<lambda>x. take 8 (snd x)) (take b q)
         \<and> length (hdr ep) = b
         \<and> length (pkt_cnt_sec ep) = b \<and> length (sec_cnt ep) = b
         \<and> length (raw_pkt_cnt ep) = b
         \<and> length (pwr_I ep) = b \<and> length (krt_I ep) = b
         \<and> length (pwr_Q ep) = b \<and> length (krt_Q ep) = b"
  using collect_Done [OF assms] by (simp add: new_one_second_def)

lemma unscramble_packet_lengths:
  assumes "k < length (unscramble_packet fuel b q)"
  shows "(k + 1) * b \<le> length q
         \<and> hdr (unscramble_packet fuel b q ! k) = map (\<lambda>x. take 8 (snd x)) (take b (drop (k * b) q))
         \<and> length (hdr (unscramble_packet fuel b q ! k)) = b
         \<and> length (pkt_cnt_sec (unscramble_packet fuel b q ! k)) = b
         \<and> length (sec_cnt (unscramble_packet fuel b q ! k)) = b
         \<and> length (raw_pkt_cnt (unscramble_packet fuel b q ! k)) = b
         \<and> length (pwr_I (unscramble_packet fuel b q ! k)) = b
         \<and> length (krt_I (unscramble_packet fuel b q ! k)) = b
         \<and> length (pwr_Q (unscramble_packet fuel b q ! k)) = b
         \<and> length (krt_Q (unscramble_packet fuel b q ! k)) = b"
  using assms
proof (induction fuel arbitrary: q k)
  case 0
  then show ?case by simp
next
  case (Suc fuel)
  from Suc.prems obtain ep q' where d: "collect b b new_one_second q = Done (ep, q')"
    by (auto split: loop_result.splits)
  note f = collect_new_Done [OF d]
  have eq: "unscramble_packet (Suc fuel) b q = ep # unscramble_packet fuel b q'"
    using d by simp
  show ?case
  proof (cases k)
    case 0
    with eq f show ?thesis by simp
  next
    case (Suc j)
    with Suc.prems eq have j: "j < length (unscramble_packet fuel b q')" by simp
    from Suc.IH [OF j] f have "(j + 1) * b \<le> length q - b" by simp
    with f have le: "(Suc j + 1) * b \<le> length q" by simp
    have dr: "drop (j * b) q' = drop (Suc j * b) q"
      using f by (simp add: add.commute)
    from Suc.IH [OF j] show ?thesis
      unfolding eq Suc using le dr by simp
  qed
qed


lemma unscramble_packet_length:
  assumes "0 < b" and "\<forall>x \<in> set q. 8208 \<le> length (snd x)"
  shows "length (unscramble_packet fuel b q) = min fuel (length q div b)"
  using assms(2)
proof (induction fuel arbitrary: q)
  case 0
  then show ?case by simp
next
  case (Suc fuel)
  show ?case
  proof (cases "b \<le> length q")
    case True
    have wf: "\<forall>x \<in> set (take b q). 8208 \<le> length (snd x)"
      using Suc.prems by (meson in_set_takeD)
    from collect_wellformed [OF wf True] obtain ep where
      d: "collect b b new_one_second q = Done (ep, drop b q)" by blast
    have wf': "\<forall>x \<in> set (drop b q). 8208 \<le> length (snd x)"
      using Suc.prems by (meson in_set_dropD)
    have "length q div b = Suc ((length q - b) div b)"
      using True assms(1) by (simp add: le_div_geq)
    with Suc.IH [OF wf'] d show ?thesis by simp
  next
    case False
    then have nd: "\<And>r. collect b b new_one_second q \<noteq> Done r"
      using collect_new_Done by (metis prod.exhaust)
    have "length q div b = 0" using False by simp
    moreover have "unscramble_packet (Suc fuel) b q = []"
      using nd by (simp split: loop_result.splits)
    ultimately show ?thesis by simp
  qed
qed

lemma collect_decoded:
  assumes "collect maxc c ep q = Done (ep', q')"
  shows "\<exists>ds. map (\<lambda>x. decode (snd x)) (take c q) = map Some ds
           \<and> hdr ep' = hdr ep @ map (\<lambda>d. result_hdr (fst d)) ds
           \<and> pkt_cnt_sec ep' = pkt_cnt_sec ep @ map (\<lambda>d. result_pkt_cnt_sec (fst d)) ds
           \<and> sec_cnt ep' = sec_cnt ep @ map (\<lambda>d. result_sec_cnt (fst d)) ds
           \<and> raw_pkt_cnt ep' = raw_pkt_cnt ep @ map (\<lambda>d. result_raw_pkt_cnt (fst d)) ds
           \<and> pwr_I ep' = pwr_I ep @ map (\<lambda>d. fst (snd d) I) ds
           \<and> krt_I ep' = krt_I ep @ map (\<lambda>d. snd (snd d) I) ds
           \<and> pwr_Q ep' = pwr_Q ep @ map (\<lambda>d. fst (snd d) Q) ds
           \<and> krt_Q ep' = krt_Q ep @ map (\<lambda>d. snd (snd d) Q) ds"
  using assms
proof (induction maxc c ep q arbitrary: ep' q' rule: collect.induct)
  case (1 maxc one_second q)
  then show ?case by simp
next
  case (2 maxc c one_second)
  then show ?case by simp
next
  case (3 maxc c one_second t pkt_buf q)
  let ?s1 = "if Suc c = maxc then one_second\<lparr>time := Some t\<rparr> else one_second"
  from "3.prems" obtain result where u: "unpack_from pkt_buf = Inr result"
    by (auto simp: Let_def split: sum.splits)
  from "3.prems" u obtain pw ku where s: "unscramble (result_data result) = Inr (pw, ku)"
    by (auto simp: Let_def split: sum.splits prod.splits)
  let ?s2 = "?s1\<lparr> hdr := hdr ?s1 @ [result_hdr result],
                     pkt_cnt_sec := pkt_cnt_sec ?s1 @ [result_pkt_cnt_sec result],
                     sec_cnt := sec_cnt ?s1 @ [result_sec_cnt result],
                     raw_pkt_cnt := raw_pkt_cnt ?s1 @ [result_raw_pkt_cnt result],
                     pwr_I := pwr_I ?s1 @ [pw I],
                     krt_I := krt_I ?s1 @ [ku I],
                     pwr_Q := pwr_Q ?s1 @ [pw Q],
                     krt_Q := krt_Q ?s1 @ [ku Q] \<rparr>"
  from "3.prems" u s have rec: "collect maxc c ?s2 q = Done (ep', q')"
    by (simp add: Let_def)
  from "3.IH" [OF refl u s refl rec] obtain ds where
    ds: "map (\<lambda>x. decode (snd x)) (take c q) = map Some ds"
      "hdr ep' = hdr ?s2 @ map (\<lambda>d. result_hdr (fst d)) ds"
      "pkt_cnt_sec ep' = pkt_cnt_sec ?s2 @ map (\<lambda>d. result_pkt_cnt_sec (fst d)) ds"
      "sec_cnt ep' = sec_cnt ?s2 @ map (\<lambda>d. result_sec_cnt (fst d)) ds"
      "raw_pkt_cnt ep' = raw_pkt_cnt ?s2 @ map (\<lambda>d. result_raw_pkt_cnt (fst d)) ds"
      "pwr_I ep' = pwr_I ?s2 @ map (\<lambda>d. fst (snd d) I) ds"
      "krt_I ep' = krt_I ?s2 @ map (\<lambda>d. snd (snd d) I) ds"
      "pwr_Q ep' = pwr_Q ?s2 @ map (\<lambda>d. fst (snd d) Q) ds"
      "krt_Q ep' = krt_Q ?s2 @ map (\<lambda>d. snd (snd d) Q) ds"
    by blast
  have d: "decode pkt_buf = Some (result, pw, ku)"
    by (simp add: decode_def u s)
  show ?case
    by (rule exI [of _ "(result, pw, ku) # ds"]) (simp add: ds d)
qed

lemma collect_time_kept:
  assumes "collect maxc c ep q = Done (ep', q')" and "c < maxc"
  shows "time ep' = time ep"
  using assms
proof (induction maxc c ep q arbitrary: ep' q' rule: collect.induct)
  case (1 maxc one_second q)
  then show ?case by simp
next
  case (2 maxc c one_second)
  then show ?case by simp
next
  case (3 maxc c one_second t pkt_buf q)
  from "3.prems" obtain result where u: "unpack_from pkt_buf = Inr result"
    by (auto simp: Let_def split: sum.splits)
  from "3.prems" u obtain pw ku where s: "unscramble (result_data result) = Inr (pw, ku)"
    by (auto simp: Let_def split: sum.splits prod.splits)
  from "3.prems"(2) have ne: "Suc c \<noteq> maxc" and lt: "c < maxc" by simp_all
  from "3.prems"(1) u s ne have rec: "collect maxc c
        (one_second\<lparr> hdr := hdr one_second @ [result_hdr result],
                     pkt_cnt_sec := pkt_cnt_sec one_second @ [result_pkt_cnt_sec result],
                     sec_cnt := sec_cnt one_second @ [result_sec_cnt result],
                     raw_pkt_cnt := raw_pkt_cnt one_second @ [result_raw_pkt_cnt result],
                     pwr_I := pwr_I one_second @ [pw I],
                     krt_I := krt_I one_second @ [ku I],
                     pwr_Q := pwr_Q one_second @ [pw Q],
                     krt_Q := krt_Q one_second @ [ku Q] \<rparr>) q = Done (ep', q')"
    by (simp add: Let_def)
  from "3.IH" [OF refl u s refl _ lt] rec ne show ?case by simp
qed


lemma collect_time_first:
  assumes "collect b b new_one_second q = Done (ep, q')" and "0 < b"
  shows "time ep = Some (fst (hd q))"
proof -
  from assms(2) obtain c where b: "b = Suc c" by (cases b) auto
  from assms(1) b obtain t pkt_buf rest where q: "q = (t, pkt_buf) # rest"
    by (cases q) auto
  from assms(1) b q obtain result where u: "unpack_from pkt_buf = Inr result"
    by (auto simp: Let_def split: sum.splits)
  from assms(1) b q u obtain pw ku where s: "unscramble (result_data result) = Inr (pw, ku)"
    by (auto simp: Let_def split: sum.splits prod.splits)
  let ?s1 = "new_one_second\<lparr>time := Some t\<rparr>"
  from assms(1) b q u s have rec: "collect (Suc c) c
        (?s1\<lparr> hdr := hdr ?s1 @ [result_hdr result],
               pkt_cnt_sec := pkt_cnt_sec ?s1 @ [result_pkt_cnt_sec result],
               sec_cnt := sec_cnt ?s1 @ [result_sec_cnt result],
               raw_pkt_cnt := raw_pkt_cnt ?s1 @ [result_raw_pkt_cnt result],
               pwr_I := pwr_I ?s1 @ [pw I],
               krt_I := krt_I ?s1 @ [ku I],
               pwr_Q := pwr_Q ?s1 @ [pw Q],
               krt_Q := krt_Q ?s1 @ [ku Q] \<rparr>) rest = Done (ep, q')"
    by (simp add: Let_def)
  from collect_time_kept [OF rec] q show ?thesis by simp
qed

lemma collect_new_decoded:
  assumes "collect b b new_one_second q = Done (ep, q')"
  shows "\<exists>ds. map (\<lambda>x. decode (snd x)) (take b q) = map Some ds
           \<and> hdr ep = map (\<lambda>d. result_hdr (fst d)) ds
           \<and> pkt_cnt_sec ep = map (\<lambda>d. result_pkt_cnt_sec (fst d)) ds
           \<and> sec_cnt ep = map (\<lambda>d. result_sec_cnt (fst d)) ds
           \<and> raw_pkt_cnt ep = map (\<lambda>d. result_raw_pkt_cnt (fst d)) ds
           \<and> pwr_I ep = map (\<lambda>d. fst (snd d) I) ds
           \<and> krt_I ep = map (\<lambda>d. snd (snd d) I) ds
           \<and> pwr_Q ep = map (\<lambda>d. fst (snd d) Q) ds
           \<and> krt_Q ep = map (\<lambda>d. snd (snd d) Q) ds"
  using collect_decoded [OF assms] by (simp add: new_one_second_def)

lemma unscramble_packet_decoded:
  assumes "k < length (unscramble_packet fuel b q)"
  shows "(\<exists>ds. length ds = b
              \<and> map (\<lambda>x. decode (snd x)) (take b (drop (k * b) q)) = map Some ds
              \<and> hdr (unscramble_packet fuel b q ! k) = map (\<lambda>d. result_hdr (fst d)) ds
              \<and> pkt_cnt_sec (unscramble_packet fuel b q ! k) = map (\<lambda>d. result_pkt_cnt_sec (fst d)) ds
              \<and> sec_cnt (unscramble_packet fuel b q ! k) = map (\<lambda>d. result_sec_cnt (fst d)) ds
              \<and> raw_pkt_cnt (unscramble_packet fuel b q ! k) = map (\<lambda>d. result_raw_pkt_cnt (fst d)) ds
              \<and> pwr_I (unscramble_packet fuel b q ! k) = map (\<lambda>d. fst (snd d) I) ds
              \<and> krt_I (unscramble_packet fuel b q ! k) = map (\<lambda>d. snd (snd d) I) ds
              \<and> pwr_Q (unscramble_packet fuel b q ! k) = map (\<lambda>d. fst (snd d) Q) ds
              \<and> krt_Q (unscramble_packet fuel b q ! k) = map (\<lambda>d. snd (snd d) Q) ds)
         \<and> (0 < b \<longrightarrow> time (unscramble_packet fuel b q ! k) = Some (fst (q ! (k * b))))"
  using assms
proof (induction fuel arbitrary: q k)
  case 0
  then show ?case by simp
next
  case (Suc fuel)
  from Suc.prems obtain ep q' where d: "collect b b new_one_second q = Done (ep, q')"
    by (auto split: loop_result.splits)
  note f = collect_new_Done [OF d]
  have eq: "unscramble_packet (Suc fuel) b q = ep # unscramble_packet fuel b q'"
    using d by simp
  show ?case
  proof (cases k)
    case 0
    from collect_new_decoded [OF d] obtain ds where
      ds: "map (\<lambda>x. decode (snd x)) (take b q) = map Some ds"
        "hdr ep = map (\<lambda>d. result_hdr (fst d)) ds"
        "pkt_cnt_sec ep = map (\<lambda>d. result_pkt_cnt_sec (fst d)) ds"
        "sec_cnt ep = map (\<lambda>d. result_sec_cnt (fst d)) ds"
        "raw_pkt_cnt ep = map (\<lambda>d. result_raw_pkt_cnt (fst d)) ds"
        "pwr_I ep = map (\<lambda>d. fst (snd d) I) ds"
        "krt_I ep = map (\<lambda>d. snd (snd d) I) ds"
        "pwr_Q ep = map (\<lambda>d. fst (snd d) Q) ds"
        "krt_Q ep = map (\<lambda>d. snd (snd d) Q) ds"
      by blast
    from f have "length (hdr ep) = b" by simp
    then have len: "length ds = b" unfolding ds(2) by simp
    have k0: "unscramble_packet (Suc fuel) b q ! k = ep" "drop (k * b) q = q" "q ! (k * b) = q ! 0"
      unfolding eq 0 by simp_all
    have tm: "time ep = Some (fst (q ! 0))" if "0 < b"
    proof -
      from f that have "q \<noteq> []" by auto
      then have "hd q = q ! 0" by (simp add: hd_conv_nth)
      with collect_time_first [OF d that] show ?thesis by simp
    qed
    show ?thesis
      unfolding k0 using len ds tm by blast
  next
    case (Suc j)
    with Suc.prems eq have j: "j < length (unscramble_packet fuel b q')" by simp
    have le: "(j + 1) * b \<le> length q'"
      using unscramble_packet_lengths [OF j] by simp
    have dr: "drop (j * b) q' = drop (k * b) q"
      using f by (simp add: Suc add.commute)
    have nt: "q' ! (j * b) = q ! (k * b)" if "0 < b"
    proof -
      from le that have "j * b < length q'" by simp
      with f show ?thesis by (simp add: Suc add.commute)
    qed
    have kk: "unscramble_packet (Suc fuel) b q ! k = unscramble_packet fuel b q' ! j"
      unfolding eq Suc by simp
    note ih = Suc.IH [OF j]
    from ih have ex: "\<exists>ds. length ds = b
              \<and> map (\<lambda>x. decode (snd x)) (take b (drop (j * b) q')) = map Some ds
              \<and> hdr (unscramble_packet fuel b q' ! j) = map (\<lambda>d. result_hdr (fst d)) ds
              \<and> pkt_cnt_sec (unscramble_packet fuel b q' ! j) = map (\<lambda>d. result_pkt_cnt_sec (fst d)) ds
              \<and> sec_cnt (unscramble_packet fuel b q' ! j) = map (\<lambda>d. result_sec_cnt (fst d)) ds
              \<and> raw_pkt_cnt (unscramble_packet fuel b q' ! j) = map (\<lambda>d. result_raw_pkt_cnt (fst d)) ds
              \<and> pwr_I (unscramble_packet fuel b q' ! j) = map (\<lambda>d. fst (snd d) I) ds
              \<and> krt_I (unscramble_packet fuel b q' ! j) = map (\<lambda>d. snd (snd d) I) ds
              \<and> pwr_Q (unscramble_packet fuel b q' ! j) = map (\<lambda>d. fst (snd d) Q) ds
              \<and> krt_Q (unscramble_packet fuel b q' ! j) = map (\<lambda>d. snd (snd d) Q) ds"
      by (rule conjunct1)
    from ih have tm: "0 < b \<longrightarrow> time (unscramble_packet fuel b q' ! j) = Some (fst (q' ! (j * b)))"
      by (rule conjunct2)
    from tm nt have tm': "0 < b \<longrightarrow> time (unscramble_packet fuel b q' ! j) = Some (fst (q ! (k * b)))"
      by simp
    show ?thesis
      unfolding kk using ex tm' unfolding dr by (rule conjI)
  qed
qed

text \<open>
  C2.  Whatever the batch size \<open>b\<close>, the number of rounds and the input queue, the
  \<open>k\<close>-th dictionary the worker puts on its output queue is made of packets
  \<open>k * b\<close> to \<open>(k + 1) * b - 1\<close> of the queue, all of them dequeued and decoded: its
  header list, its three counter lists and its four sample lists hold, in order, what
  \<open>unpack_from\<close> and \<open>unscramble\<close> give for each of these \<open>b\<close> packets, so each list
  has exactly \<open>b\<close> entries, and its time is the clock reading at the first of them.
\<close>

theorem unscramble_packet_epochs:
  assumes "k < length (unscramble_packet fuel b q)"
  shows "(k + 1) * b \<le> length q
         \<and> (\<exists>ds. length ds = b
              \<and> map (\<lambda>x. decode (snd x)) (take b (drop (k * b) q)) = map Some ds
              \<and> hdr (unscramble_packet fuel b q ! k) = map (\<lambda>d. result_hdr (fst d)) ds
              \<and> pkt_cnt_sec (unscramble_packet fuel b q ! k) = map (\<lambda>d. result_pkt_cnt_sec (fst d)) ds
              \<and> sec_cnt (unscramble_packet fuel b q ! k) = map (\<lambda>d. result_sec_cnt (fst d)) ds
              \<and> raw_pkt_cnt (unscramble_packet fuel b q ! k) = map (\<lambda>d. result_raw_pkt_cnt (fst d)) ds
              \<and> pwr_I (unscramble_packet fuel b q ! k) = map (\<lambda>d. fst (snd d) I) ds
              \<and> krt_I (unscramble_packet fuel b q ! k) = map (\<lambda>d. snd (snd d) I) ds
              \<and> pwr_Q (unscramble_packet fuel b q ! k) = map (\<lambda>d. fst (snd d) Q) ds
              \<and> krt_Q (unscramble_packet fuel b q ! k) = map (\<lambda>d. snd (snd d) Q) ds)
         \<and> (0 < b \<longrightarrow> time (unscramble_packet fuel b q ! k) = Some (fst (q ! (k * b))))
         \<and> hdr (unscramble_packet fuel b q ! k) = map (\<lambda>x. take 8 (snd x)) (take b (drop (k * b) q))
         \<and> length (hdr (unscramble_packet fuel b q ! k)) = b
         \<and> length (pkt_cnt_sec (unscramble_packet fuel b q ! k)) = b
         \<and> length (sec_cnt (unscramble_packet fuel b q ! k)) = b
         \<and> length (raw_pkt_cnt (unscramble_packet fuel b q ! k)) = b
         \<and> length (pwr_I (unscramble_packet fuel b q ! k)) = b
         \<and> length (krt_I (unscramble_packet fuel b q ! k)) = b
         \<and> length (pwr_Q (unscramble_packet fuel b q ! k)) = b
         \<and> length (krt_Q (unscramble_packet fuel b q ! k)) = b"
proof -
  note l = unscramble_packet_lengths [OF assms]
  note d = unscramble_packet_decoded [OF assms]
  from l have a: "(k + 1) * b \<le> length q" by (rule conjunct1)
  from l have r: "hdr (unscramble_packet fuel b q ! k) = map (\<lambda>x. take 8 (snd x)) (take b (drop (k * b) q))
         \<and> length (hdr (unscramble_packet fuel b q ! k)) = b
         \<and> length (pkt_cnt_sec (unscramble_packet fuel b q ! k)) = b
         \<and> length (sec_cnt (unscramble_packet fuel b q ! k)) = b
         \<and> length (raw_pkt_cnt (unscramble_packet fuel b q ! k)) = b
         \<and> length (pwr_I (unscramble_packet fuel b q ! k)) = b
         \<and> length (krt_I (unscramble_packet fuel b q ! k)) = b
         \<and> length (pwr_Q (unscramble_packet fuel b q ! k)) = b
         \<and> length (krt_Q (unscramble_packet fuel b q ! k)) = b"
    by (rule conjunct2)
  show ?thesis
    by (rule conjI [OF a conjI [OF conjunct1 [OF d] conjI [OF conjunct2 [OF d] r]]])
qed

theorem unscramble_packet_epochs_witness:
  "0 < length (unscramble_packet 1 2 [(10::rat, replicate 8208 (0::byte)), (11, replicate 8208 0)])
   \<and> (0 + 1) * 2 \<le> length [(10::rat, replicate 8208 (0::byte)), (11, replicate 8208 0)]
   \<and> (\<exists>ds. length ds = 2
        \<and> map (\<lambda>x. decode (snd x)) (take 2 (drop (0 * 2) [(10::rat, replicate 8208 (0::byte)), (11, replicate 8208 0)])) = map Some ds
        \<and> hdr (unscramble_packet 1 2 [(10::rat, replicate 8208 (0::byte)), (11, replicate 8208 0)] ! 0) = map (\<lambda>d. result_hdr (fst d)) ds
        \<and> raw_pkt_cnt (unscramble_packet 1 2 [(10::rat, replicate 8208 (0::byte)), (11, replicate 8208 0)] ! 0) = map (\<lambda>d. result_raw_pkt_cnt (fst d)) ds
        \<and> pwr_I (unscramble_packet 1 2 [(10::rat, replicate 8208 (0::byte)), (11, replicate 8208 0)] ! 0) = map (\<lambda>d. fst (snd d) I) ds
        \<and> krt_Q (unscramble_packet 1 2 [(10::rat, replicate 8208 (0::byte)), (11, replicate 8208 0)] ! 0) = map (\<lambda>d. snd (snd d) Q) ds)
   \<and> time (unscramble_packet 1 2 [(10::rat, replicate 8208 (0::byte)), (11, replicate 8208 0)] ! 0) = Some 10
   \<and> length (hdr (unscramble_packet 1 2 [(10::rat, replicate 8208 (0::byte)), (11, replicate 8208 0)] ! 0)) = 2
   \<and> length (krt_Q (unscramble_packet 1 2 [(10::rat, replicate 8208 (0::byte)), (11, replicate 8208 0)] ! 0)) = 2"
proof -
  have h: "0 < length (unscramble_packet 1 2 [(10::rat, replicate 8208 (0::byte)), (11, replicate 8208 0)])"
    by (subst unscramble_packet_length) simp_all
  note r = unscramble_packet_epochs [OF h]
  from r have a: "(0 + 1) * 2 \<le> length [(10::rat, replicate 8208 (0::byte)), (11, replicate 8208 0)]" by (rule conjunct1)
  from r have e: "\<exists>ds. length ds = 2
        \<and> map (\<lambda>x. decode (snd x)) (take 2 (drop (0 * 2) [(10::rat, replicate 8208 (0::byte)), (11, replicate 8208 0)])) = map Some ds
        \<and> hdr (unscramble_packet 1 2 [(10::rat, replicate 8208 (0::byte)), (11, replicate 8208 0)] ! 0) = map (\<lambda>d. result_hdr (fst d)) ds
        \<and> raw_pkt_cnt (unscramble_packet 1 2 [(10::rat, replicate 8208 (0::byte)), (11, replicate 8208 0)] ! 0) = map (\<lambda>d. result_raw_pkt_cnt (fst d)) ds
        \<and> pwr_I (unscramble_packet 1 2 [(10::rat, replicate 8208 (0::byte)), (11, replicate 8208 0)] ! 0) = map (\<lambda>d. fst (snd d) I) ds
        \<and> krt_Q (unscramble_packet 1 2 [(10::rat, replicate 8208 (0::byte)), (11, replicate 8208 0)] ! 0) = map (\<lambda>d. snd (snd d) Q) ds"
    by blast
  from r have "(0::nat) < 2 \<longrightarrow> time (unscramble_packet 1 2 [(10::rat, replicate 8208 (0::byte)), (11, replicate 8208 0)] ! 0) = Some (fst ([(10::rat, replicate 8208 (0::byte)), (11, replicate 8208 0)] ! (0 * 2)))"
    by blast
  then have t: "time (unscramble_packet 1 2 [(10::rat, replicate 8208 (0::byte)), (11, replicate 8208 0)] ! 0) = Some 10" by simp
  from r have l: "length (hdr (unscramble_packet 1 2 [(10::rat, replicate 8208 (0::byte)), (11, replicate 8208 0)] ! 0)) = 2"
    "length (krt_Q (unscramble_packet 1 2 [(10::rat, replicate 8208 (0::byte)), (11, replicate 8208 0)] ! 0)) = 2" by blast+
  from h a e t l show ?thesis by blast
qed

subsection \<open>The packet reader\<close>


lemma recv_batch_eq:
  "recv_batch u n sock =
     (map (\<lambda>d. (u, d)) (take n sock), if n \<le> length sock then Some (drop n sock) else None)"
  by (induction u n sock rule: recv_batch.induct) (auto split: prod.splits)

lemma serve_workers_rest:
  "snd (serve_workers us b sock) =
     (if length us * b \<le> length sock then Some (drop (length us * b) sock) else None)"
proof (induction us arbitrary: sock)
  case Nil
  then show ?case by simp
next
  case (Cons u us)
  show ?case
  proof (cases "b \<le> length sock")
    case True
    then show ?thesis
      using Cons.IH [of "drop b sock"]
      by (auto simp: recv_batch_eq add.commute split: prod.splits)
  next
    case False
    then have "\<not> length (u # us) * b \<le> length sock"
      by (simp add: trans_le_add1)
    with False show ?thesis by (simp add: recv_batch_eq)
  qed
qed

lemma serve_workers_length:
  "length (fst (serve_workers us b sock)) = min (length sock) (length us * b)"
proof (induction us arbitrary: sock)
  case Nil
  then show ?case by simp
next
  case (Cons u us)
  show ?case
  proof (cases "b \<le> length sock")
    case True
    then show ?thesis
      using Cons.IH [of "drop b sock"]
      by (auto simp: recv_batch_eq split: prod.splits)
  next
    case False
    then show ?thesis by (simp add: recv_batch_eq min_def trans_le_add1)
  qed
qed

lemma serve_workers_nth:
  assumes "i < min (length sock) (length us * b)"
  shows "fst (serve_workers us b sock) ! i = (us ! (i div b), sock ! i)"
  using assms
proof (induction us arbitrary: sock i)
  case Nil
  then show ?case by simp
next
  case (Cons u us)
  show ?case
  proof (cases "i < b")
    case True
    with Cons.prems show ?thesis
      by (cases "b \<le> length sock")
         (auto simp: recv_batch_eq nth_append split: prod.splits)
  next
    case False
    from Cons.prems have bpos: "0 < b" by (cases b) auto
    from False Cons.prems have bl: "b \<le> length sock" by auto
    from False Cons.prems have i': "i - b < min (length (drop b sock)) (length us * b)"
      by auto
    have d: "i div b = Suc ((i - b) div b)"
      using False bpos by (simp add: le_div_geq)
    from Cons.IH [OF i'] False bl show ?thesis
      by (auto simp: recv_batch_eq nth_append d split: prod.splits)
  qed
qed


lemma get_packet_length:
  "length (get_packet fuel n b sock) = min (length sock) (fuel * n * b)"
proof (induction fuel arbitrary: sock)
  case 0
  then show ?case by simp
next
  case (Suc fuel)
  obtain puts rest where sw: "serve_workers [0..<n] b sock = (puts, rest)"
    by (cases "serve_workers [0..<n] b sock")
  have lp: "length puts = min (length sock) (n * b)"
    using serve_workers_length [of "[0..<n]" b sock] sw by simp
  have rs: "rest = (if n * b \<le> length sock then Some (drop (n * b) sock) else None)"
    using serve_workers_rest [of "[0..<n]" b sock] sw by simp
  have sf: "Suc fuel * n * b = n * b + fuel * n * b" by (simp add: algebra_simps)
  show ?case
  proof (cases "n * b \<le> length sock")
    case True
    with rs sw have "length (get_packet (Suc fuel) n b sock)
        = length puts + length (get_packet fuel n b (drop (n * b) sock))" by simp
    also have "\<dots> = min (length sock) (n * b) + min (length sock - n * b) (fuel * n * b)"
      using lp Suc.IH [of "drop (n * b) sock"] by simp
    also have "\<dots> = min (length sock) (Suc fuel * n * b)"
      unfolding sf using True by linarith
    finally show ?thesis .
  next
    case False
    with rs sw have "length (get_packet (Suc fuel) n b sock) = length puts" by simp
    also have "\<dots> = min (length sock) (Suc fuel * n * b)"
      unfolding sf lp using False by linarith
    finally show ?thesis .
  qed
qed

lemma get_packet_nth:
  assumes "i < min (length sock) (fuel * n * b)"
  shows "get_packet fuel n b sock ! i = ((i div b) mod n, sock ! i)"
  using assms
proof (induction fuel arbitrary: sock i)
  case 0
  then show ?case by simp
next
  case (Suc fuel)
  obtain puts rest where sw: "serve_workers [0..<n] b sock = (puts, rest)"
    by (cases "serve_workers [0..<n] b sock")
  have lp: "length puts = min (length sock) (n * b)"
    using serve_workers_length [of "[0..<n]" b sock] sw by simp
  have rs: "rest = (if n * b \<le> length sock then Some (drop (n * b) sock) else None)"
    using serve_workers_rest [of "[0..<n]" b sock] sw by simp
  have sf: "Suc fuel * n * b = n * b + fuel * n * b" by (simp add: algebra_simps)
  from Suc.prems have bpos: "0 < b" by (cases b) auto
  show ?case
  proof (cases "i < n * b")
    case True
    with Suc.prems have i1: "i < min (length sock) (length [0..<n] * b)" by simp
    from True bpos have dn: "i div b < n"
      by (simp add: less_mult_imp_div_less)
    have "get_packet (Suc fuel) n b sock ! i = puts ! i"
      using sw rs lp True Suc.prems by (auto simp: nth_append)
    also have "\<dots> = ([0..<n] ! (i div b), sock ! i)"
      using serve_workers_nth [OF i1] sw by simp
    also have "\<dots> = ((i div b) mod n, sock ! i)"
      using dn by simp
    finally show ?thesis .
  next
    case False
    with Suc.prems have full: "n * b \<le> length sock" by simp
    from False have ge: "n * b \<le> i" by simp
    from Suc.prems have "i < min (length sock) (n * b + fuel * n * b)"
      by (simp only: sf)
    then have lt: "i < length sock" "i < n * b + fuel * n * b" by simp_all
    have "i - n * b < length sock - n * b" using ge lt(1) by (rule_tac diff_less_mono)
    moreover have "i - n * b < fuel * n * b" using ge lt(2) by linarith
    ultimately have i2: "i - n * b < min (length (drop (n * b) sock)) (fuel * n * b)"
      by simp
    have "get_packet (Suc fuel) n b sock ! i = get_packet fuel n b (drop (n * b) sock) ! (i - n * b)"
      using sw rs lp full False by (simp add: nth_append)
    also have "\<dots> = (((i - n * b) div b) mod n, drop (n * b) sock ! (i - n * b))"
      by (rule Suc.IH [OF i2])
    also have "drop (n * b) sock ! (i - n * b) = sock ! i"
      using False full by simp
    also have "((i - n * b) div b) mod n = (i div b) mod n"
    proof -
      have "b \<noteq> 0" using bpos by simp
      then have e: "(i - n * b + n * b) div b = n + (i - n * b) div b"
        by (rule div_mult_self1)
      have "i - n * b + n * b = i" using ge by simp
      with e have "i div b = n + (i - n * b) div b" by simp
      then show ?thesis by simp
    qed
    finally show ?thesis .
  qed
qed


text \<open>
  C3.  The reader's \<open>put\<close> calls are, in order, one per received buffer: buffer number
  \<open>i\<close> goes unchanged to queue \<open>(i div b) mod n\<close>.  After \<open>fuel\<close> rounds of the outer
  loop the first \<open>fuel * n * b\<close> buffers have been handed on (all of them if fewer came).
  So each queue receives \<open>b\<close> consecutive buffers before the next queue is served, the
  queues are served in cyclic order, and queue \<open>w\<close> holds, in arrival order, exactly the
  buffers whose number \<open>i\<close> has \<open>(i div b) mod n = w\<close>.
\<close>

theorem get_packet_round_robin:
  "get_packet fuel n b sock
     = map (\<lambda>i. ((i div b) mod n, sock ! i)) [0..<min (length sock) (fuel * n * b)]
   \<and> queue_contents w (get_packet fuel n b sock)
     = map (\<lambda>i. sock ! i)
         (filter (\<lambda>i. (i div b) mod n = w) [0..<min (length sock) (fuel * n * b)])"
proof -
  have tr: "get_packet fuel n b sock
     = map (\<lambda>i. ((i div b) mod n, sock ! i)) [0..<min (length sock) (fuel * n * b)]"
    by (rule nth_equalityI) (simp_all add: get_packet_length get_packet_nth)
  show ?thesis
    unfolding queue_contents_def tr by (simp add: filter_map comp_def)
qed

subsection \<open>The averager\<close>

lemma round_even_int: "round_even (of_int m) = m"
  by (simp add: round_even_def)

lemma ilog2_nat:
  assumes "0 < n"
  shows "ilog2 (of_nat n) = bitlen (int n) - 1"
proof -
  have q: "quotient_of (of_nat n) = (int n, 1)"
    using quotient_of_int [of "int n"] by simp
  from assms have "2 ^ nat (bitlen (int n) - 1) \<le> int n"
    using bitlen_bounds [of "int n"] by simp
  moreover have "0 \<le> bitlen (int n) - 1"
  proof -
    from assms have "bitlen (int n) \<noteq> 0" by (simp add: bitlen_eq_zero_iff)
    with bitlen_nonneg [of "int n"] show ?thesis by linarith
  qed
  ultimately have "pow2 (bitlen (int n) - 1) \<le> of_nat n"
    by (simp add: pow2_def)
  moreover have "bitlen 1 = 1" by (simp add: bitlen_alt_def)
  ultimately show ?thesis
    by (simp add: ilog2_def q Let_def)
qed

lemma round_sig_nat:
  assumes "n < 2 ^ p"
  shows "round_sig p (of_nat n) = of_nat n"
proof (cases "n = 0")
  case True
  then show ?thesis by (simp add: round_sig_def)
next
  case False
  then have pos: "0 < n" by simp
  define e where "e = bitlen (int n) - 1"
  have il: "ilog2 (of_nat n) = e"
    using ilog2_nat [OF pos] by (simp add: e_def)
  from pos have lo: "2 ^ nat e \<le> int n" and e0: "0 \<le> e"
    using bitlen_bounds [of "int n"] bitlen_nonneg [of "int n"] bitlen_eq_zero_iff [of "int n"]
    by (simp_all add: e_def)
  from assms have "int n < 2 ^ p" by (metis of_nat_less_iff of_nat_numeral of_nat_power)
  with lo have "(2::int) ^ nat e < 2 ^ p" by linarith
  then have "nat e < p" by simp
  then have ep: "e - int p + 1 \<le> 0" using e0 by linarith
  define k where "k = nat (- (e - int p + 1))"
  have u: "pow2 (e - int p + 1) = 1 / 2 ^ k"
    using ep by (cases "e - int p + 1 = 0") (simp_all add: pow2_def k_def)
  have d: "(of_nat n :: rat) / (1 / 2 ^ k) = of_int (int n * 2 ^ k)"
    by simp
  have "round_sig p (of_nat n) = of_int (round_even (of_nat n / pow2 (e - int p + 1))) * pow2 (e - int p + 1)"
    using False by (simp add: round_sig_def il Let_def)
  also have "\<dots> = of_int (round_even (of_nat n / (1 / 2 ^ k))) * (1 / 2 ^ k)"
    by (simp only: u)
  also have "\<dots> = of_int (int n * 2 ^ k) * (1 / 2 ^ k)"
    unfolding d round_even_int ..
  also have "\<dots> = of_nat n" by simp
  finally show ?thesis .
qed


lemma foldl_round_nat:
  assumes "a + sum_list ns < 2 ^ p"
  shows "foldl (\<lambda>acc y. round_sig p (acc + y)) (of_nat a) (map of_nat ns) = of_nat (a + sum_list ns)"
  using assms
proof (induction ns arbitrary: a)
  case Nil
  then show ?case by simp
next
  case (Cons n ns)
  from Cons.prems have lt: "a + n < 2 ^ p" and rest: "(a + n) + sum_list ns < 2 ^ p" by simp_all
  have "round_sig p (of_nat a + of_nat n) = of_nat (a + n)"
    using round_sig_nat [OF lt] by simp
  then show ?case
    using Cons.IH [OF rest] by (simp add: add.assoc)
qed

lemma np_sum_nat:
  assumes "sum_list ns < 2 ^ p"
  shows "np_sum (round_sig p) (map of_nat ns) = of_nat (sum_list ns)"
proof (cases ns)
  case Nil
  then show ?thesis by (simp add: np_sum_def)
next
  case (Cons n ms)
  with assms have "n + sum_list ms < 2 ^ p" by simp
  from foldl_round_nat [OF this] Cons show ?thesis by (simp add: np_sum_def)
qed

lemma setitem_Inr:
  "setitem xs i v = Inr ys \<Longrightarrow> i < length xs \<and> ys = xs[i := v]"
  by (auto simp: setitem_def split: if_splits)

lemma resize_grow:
  "length xs = n \<Longrightarrow> resize (Suc n) fill xs = xs @ [fill]"
  by (simp add: resize_def)

lemma grow_sized:
  assumes "sized (max 1 counter) f"
  shows "sized (counter + 1) (grow counter f)
         \<and> take counter (aqtime (grow counter f)) = take counter (aqtime f)
         \<and> take counter (pkt_cnt (grow counter f)) = take counter (pkt_cnt f)
         \<and> take counter (power_ds (grow counter f)) = take counter (power_ds f)
         \<and> take counter (kurtosis (grow counter f)) = take counter (kurtosis f)"
proof (cases "counter = 0")
  case True
  with assms show ?thesis by (simp add: grow_def sized_def)
next
  case False
  with assms have "length (aqtime f) = max 1 counter" "length (pkt_cnt f) = max 1 counter"
    "length (power_ds f) = max 1 counter" "length (kurtosis f) = max 1 counter"
    by (simp_all add: sized_def)
  with False show ?thesis
    by (simp add: grow_def sized_def resize_grow)
qed

lemma write_row_parts:
  assumes "write_row counter ep t c ch f = Inr f'"
  shows "\<exists>mp mk rp rk.
           mean_axis0 float64 (pwr ep ch) = Inr mp \<and> as_row mp = Inr rp
         \<and> mean_axis0 float32 (krt ep ch) = Inr mk \<and> as_row mk = Inr rk
         \<and> counter < length (aqtime (grow counter f))
         \<and> counter < length (pkt_cnt (grow counter f))
         \<and> counter < length (power_ds (grow counter f))
         \<and> counter < length (kurtosis (grow counter f))
         \<and> f' = \<lparr> aqtime = (aqtime (grow counter f))[counter := t],
                   pkt_cnt = (pkt_cnt (grow counter f))[counter := int32_cast (uint c)],
                   power_ds = (power_ds (grow counter f))[counter := map float32 rp],
                   kurtosis = (kurtosis (grow counter f))[counter := rk] \<rparr>"
  using assms
  by (auto simp: write_row_def Let_def dest!: setitem_Inr split: sum.splits)

lemma write_row_Inr:
  assumes w: "write_row counter ep t c ch f = Inr f'"
    and s: "sized (max 1 counter) f"
  shows "sized (counter + 1) f'
         \<and> take counter (aqtime f') = take counter (aqtime f)
         \<and> take counter (pkt_cnt f') = take counter (pkt_cnt f)
         \<and> take counter (power_ds f') = take counter (power_ds f)
         \<and> take counter (kurtosis f') = take counter (kurtosis f)
         \<and> aqtime f' ! counter = t
         \<and> pkt_cnt f' ! counter = int32_cast (uint c)"
proof -
  from write_row_parts [OF w] obtain mp mk rp rk where
    l: "counter < length (aqtime (grow counter f))"
       "counter < length (pkt_cnt (grow counter f))"
       "counter < length (power_ds (grow counter f))"
       "counter < length (kurtosis (grow counter f))"
    and f': "f' = \<lparr> aqtime = (aqtime (grow counter f))[counter := t],
                   pkt_cnt = (pkt_cnt (grow counter f))[counter := int32_cast (uint c)],
                   power_ds = (power_ds (grow counter f))[counter := map float32 rp],
                   kurtosis = (kurtosis (grow counter f))[counter := rk] \<rparr>"
    by blast
  note g = grow_sized [OF s]
  from g have sz: "sized (counter + 1) f'"
    by (simp add: f' sized_def)
  from g have tk: "take counter (aqtime f') = take counter (aqtime f)"
    "take counter (pkt_cnt f') = take counter (pkt_cnt f)"
    "take counter (power_ds f') = take counter (power_ds f)"
    "take counter (kurtosis f') = take counter (kurtosis f)"
    by (simp_all add: f')
  from l have rows: "aqtime f' ! counter = t" "pkt_cnt f' ! counter = int32_cast (uint c)"
    by (simp_all add: f')
  from sz tk rows show ?thesis by simp
qed

text \<open>On a dictionary as the worker emits it, with datasets of the right size, nothing raises.\<close>

lemma mean_axis0_rect:
  assumes "rows \<noteq> []" and "list_all (\<lambda>row. length row = n) rows"
  shows "\<exists>m. mean_axis0 rnd rows = Inr m \<and> length m = n"
proof -
  from assms(1) obtain r rs where rows: "rows = r # rs" by (cases rows) auto
  with assms(2) have r: "length r = n" by simp
  from assms(2) r have "list_all (\<lambda>x. length x = length r) rows" by simp
  with rows r show ?thesis by (simp add: mean_axis0_def)
qed

lemma write_row_succeeds:
  assumes "pwr ep ch \<noteq> []" "list_all (\<lambda>row. length row = 1024) (pwr ep ch)"
    and "krt ep ch \<noteq> []" "list_all (\<lambda>row. length row = 1024) (krt ep ch)"
    and "sized (max 1 counter) f"
  shows "\<exists>f'. write_row counter ep t c ch f = Inr f'"
proof -
  from mean_axis0_rect [OF assms(1,2)] obtain mp where
    mp: "mean_axis0 float64 (pwr ep ch) = Inr mp" "length mp = 1024" by blast
  from mean_axis0_rect [OF assms(3,4)] obtain mk where
    mk: "mean_axis0 float32 (krt ep ch) = Inr mk" "length mk = 1024" by blast
  from grow_sized [OF assms(5)] have "sized (counter + 1) (grow counter f)" by simp
  then have l: "counter < length (aqtime (grow counter f))"
    "counter < length (pkt_cnt (grow counter f))"
    "counter < length (power_ds (grow counter f))"
    "counter < length (kurtosis (grow counter f))"
    by (simp_all add: sized_def)
  show ?thesis
    by (simp add: write_row_def Let_def setitem_def as_row_def mp mk l)
qed

lemma well_formed_rows:
  assumes "well_formed ep"
  shows "pwr ep ch \<noteq> []" "list_all (\<lambda>row. length row = 1024) (pwr ep ch)"
    "krt ep ch \<noteq> []" "list_all (\<lambda>row. length row = 1024) (krt ep ch)"
  using assms by (cases ch; simp add: well_formed_def pwr_def krt_def list_all_iff)+

lemma average_epoch_succeeds:
  assumes "well_formed ep" and "\<And>ch. sized (max 1 counter) (files ch)"
  shows "\<exists>files'. average_epoch counter ep files = Inr files'"
proof -
  from assms(1) obtain t c cs where tm: "time ep = Some t" and rc: "raw_pkt_cnt ep = c # cs"
    by (cases "raw_pkt_cnt ep") (auto simp: well_formed_def)
  from write_row_succeeds [OF well_formed_rows [OF assms(1)] assms(2)] obtain fI where
    wI: "write_row counter ep t c I (files I) = Inr fI" by blast
  from write_row_succeeds [OF well_formed_rows [OF assms(1)] assms(2)] obtain fQ where
    wQ: "write_row counter ep t c Q (files Q) = Inr fQ" by blast
  show ?thesis
    by (simp add: average_epoch_def tm rc wI wQ)
qed


lemma average_epoch_parts:
  assumes "average_epoch counter ep files = Inr files'"
  shows "\<exists>t c cs fI fQ. time ep = Some t \<and> raw_pkt_cnt ep = c # cs
           \<and> write_row counter ep t c I (files I) = Inr fI
           \<and> write_row counter ep t c Q (files Q) = Inr fQ
           \<and> files' I = fI \<and> files' Q = fQ"
  using assms
  by (auto simp: average_epoch_def split: option.splits list.splits sum.splits)

lemma average_epoch_channel:
  assumes "average_epoch counter ep files = Inr files'"
  shows "\<exists>t c cs. time ep = Some t \<and> raw_pkt_cnt ep = c # cs
           \<and> write_row counter ep t c ch (files ch) = Inr (files' ch)"
  using average_epoch_parts [OF assms] by (cases ch) auto

lemma average_loop_append:
  "average_loop c files (es @ [e]) =
     (case average_loop c files es of
        Inl x \<Rightarrow> Inl x
      | Inr (n, f) \<Rightarrow> average_loop n f [e])"
  by (induction es arbitrary: c files) (auto split: sum.splits)

lemma open_monitor_files_sized: "sized 1 (open_monitor_files ch)"
  by (simp add: sized_def open_monitor_files_def)

text \<open>
  The state of the averager after the dictionaries \<open>es\<close>: the counter is their number,
  every dataset has that many rows (one if there are none), and row \<open>j\<close> holds the time
  and the first packet counter of dictionary \<open>j\<close>.
\<close>

lemma averager_state:
  assumes "list_all well_formed es"
  shows "\<exists>files. average_one_second es = Inr (length es, files)
           \<and> (\<forall>ch. sized (max 1 (length es)) (files ch)
                \<and> (\<forall>j < length es. time (es ! j) = Some (aqtime (files ch) ! j)
                      \<and> pkt_cnt (files ch) ! j = int32_cast (uint (hd (raw_pkt_cnt (es ! j))))))"
  using assms
proof (induction es rule: rev_induct)
  case Nil
  have "sized (max 1 0) (open_monitor_files ch)" for ch
    using open_monitor_files_sized [of ch] by simp
  then show ?case by (simp add: average_one_second_def)
next
  case (snoc e es)
  from snoc.prems have wf: "well_formed e" and wfs: "list_all well_formed es" by simp_all
  from snoc.IH [OF wfs] obtain files where
    av: "average_one_second es = Inr (length es, files)"
    and sz: "\<And>ch. sized (max 1 (length es)) (files ch)"
    and rows: "\<And>ch j. j < length es \<Longrightarrow> time (es ! j) = Some (aqtime (files ch) ! j)
                      \<and> pkt_cnt (files ch) ! j = int32_cast (uint (hd (raw_pkt_cnt (es ! j))))"
    by blast
  from average_epoch_succeeds [where files = files and counter = "length es", OF wf sz] obtain files' where
    st: "average_epoch (length es) e files = Inr files'" by blast
  have av': "average_one_second (es @ [e]) = Inr (length (es @ [e]), files')"
    using av st by (simp add: average_one_second_def average_loop_append)
  have ch: "sized (max 1 (length (es @ [e]))) (files' c)
            \<and> (\<forall>j < length (es @ [e]). time ((es @ [e]) ! j) = Some (aqtime (files' c) ! j)
                  \<and> pkt_cnt (files' c) ! j = int32_cast (uint (hd (raw_pkt_cnt ((es @ [e]) ! j)))))"
    for c
  proof -
    from average_epoch_channel [OF st, of c] obtain t k ks where
      tm: "time e = Some t" and rc: "raw_pkt_cnt e = k # ks"
      and w: "write_row (length es) e t k c (files c) = Inr (files' c)" by blast
    note r = write_row_Inr [OF w sz]
    from r have s': "sized (max 1 (length (es @ [e]))) (files' c)" by simp
    have old: "aqtime (files' c) ! j = aqtime (files c) ! j
               \<and> pkt_cnt (files' c) ! j = pkt_cnt (files c) ! j" if "j < length es" for j
    proof -
      from r have "take (length es) (aqtime (files' c)) = take (length es) (aqtime (files c))"
        "take (length es) (pkt_cnt (files' c)) = take (length es) (pkt_cnt (files c))" by simp_all
      with that show ?thesis by (metis nth_take)
    qed
    have "time ((es @ [e]) ! j) = Some (aqtime (files' c) ! j)
          \<and> pkt_cnt (files' c) ! j = int32_cast (uint (hd (raw_pkt_cnt ((es @ [e]) ! j))))"
      if "j < length (es @ [e])" for j
    proof (cases "j < length es")
      case True
      with rows [OF True, of c] old [OF True] show ?thesis by (simp add: nth_append)
    next
      case False
      with that have "j = length es" by simp
      with r tm rc show ?thesis by simp
    qed
    with s' show ?thesis by blast
  qed
  from av' ch show ?case by blast
qed


text \<open>
  C5.  The datasets are created with one row.  For dictionaries as the worker emits
  them the averager writes a row for each: when rows \<open>0\<close> to \<open>k\<close> have been written
  (here \<open>k = length es\<close>), every dataset had \<open>max 1 k\<close> rows before the last of these
  writes, the resize made it \<open>k + 1\<close> (for \<open>k = 0\<close> nothing is resized), and after the
  write every dataset has \<open>k + 1\<close> rows; the first \<open>k\<close> rows are the ones that were
  there before, and row \<open>j\<close> holds the time and the packet counter of dictionary \<open>j\<close>
  for every \<open>j\<close> up to \<open>k\<close>.
\<close>

theorem monitor_datasets_grow:
  assumes "list_all well_formed (es @ [e])"
  shows "\<exists>files files'.
           average_one_second es = Inr (length es, files)
           \<and> average_one_second (es @ [e]) = Inr (length es + 1, files')
           \<and> sized 1 (open_monitor_files ch)
           \<and> grow 0 (open_monitor_files ch) = open_monitor_files ch
           \<and> sized (max 1 (length es)) (files ch)
           \<and> sized (length es + 1) (grow (length es) (files ch))
           \<and> sized (length es + 1) (files' ch)
           \<and> take (length es) (aqtime (files' ch)) = take (length es) (aqtime (files ch))
           \<and> take (length es) (pkt_cnt (files' ch)) = take (length es) (pkt_cnt (files ch))
           \<and> take (length es) (power_ds (files' ch)) = take (length es) (power_ds (files ch))
           \<and> take (length es) (kurtosis (files' ch)) = take (length es) (kurtosis (files ch))
           \<and> (\<forall>j \<le> length es. time ((es @ [e]) ! j) = Some (aqtime (files' ch) ! j)
                 \<and> pkt_cnt (files' ch) ! j = int32_cast (uint (hd (raw_pkt_cnt ((es @ [e]) ! j)))))"
proof -
  from assms have wfs: "list_all well_formed es" by simp
  from averager_state [OF wfs] obtain files where
    av: "average_one_second es = Inr (length es, files)"
    and sz: "\<And>c. sized (max 1 (length es)) (files c)" by blast
  from averager_state [OF assms] obtain files' where
    av': "average_one_second (es @ [e]) = Inr (length (es @ [e]), files')"
    and rows: "\<And>j. j < length (es @ [e]) \<Longrightarrow> time ((es @ [e]) ! j) = Some (aqtime (files' ch) ! j)
                 \<and> pkt_cnt (files' ch) ! j = int32_cast (uint (hd (raw_pkt_cnt ((es @ [e]) ! j))))"
    by blast
  from av av' have st: "average_epoch (length es) e files = Inr files'"
    by (auto simp: average_one_second_def average_loop_append split: sum.splits)
  from average_epoch_channel [OF st, of ch] obtain t k ks where
    w: "write_row (length es) e t k ch (files ch) = Inr (files' ch)" by blast
  note r = write_row_Inr [OF w sz]
  note g = grow_sized [OF sz [of ch]]
  have a1: "average_one_second (es @ [e]) = Inr (length es + 1, files')"
    using av' by simp
  have a2: "grow 0 (open_monitor_files ch) = open_monitor_files ch"
    by (simp add: grow_def)
  have a3: "\<forall>j \<le> length es. time ((es @ [e]) ! j) = Some (aqtime (files' ch) ! j)
                 \<and> pkt_cnt (files' ch) ! j = int32_cast (uint (hd (raw_pkt_cnt ((es @ [e]) ! j))))"
    using rows by (simp add: less_Suc_eq_le)
  from av a1 a2 a3 r g sz [of ch] open_monitor_files_sized [of ch] show ?thesis
    by blast
qed


theorem monitor_datasets_grow_witness:
  "list_all well_formed ([test_epoch 5 7] @ [test_epoch 6 8])
   \<and> (\<exists>files files'.
         average_one_second [test_epoch 5 7] = Inr (1, files)
         \<and> average_one_second ([test_epoch 5 7] @ [test_epoch 6 8]) = Inr (2, files')
         \<and> sized 1 (files I) \<and> sized 2 (grow 1 (files I)) \<and> sized 2 (files' I)
         \<and> take 1 (aqtime (files' I)) = take 1 (aqtime (files I))
         \<and> aqtime (files' I) ! 0 = 5 \<and> aqtime (files' I) ! 1 = 6
         \<and> pkt_cnt (files' I) ! 0 = 7 \<and> pkt_cnt (files' I) ! 1 = 8)"
proof -
  have h: "list_all well_formed ([test_epoch 5 7] @ [test_epoch 6 8])"
    by (simp add: well_formed_def test_epoch_def)
  from monitor_datasets_grow [OF h, of I] obtain files files' where
    a: "average_one_second [test_epoch 5 7] = Inr (length [test_epoch 5 7], files)"
       "average_one_second ([test_epoch 5 7] @ [test_epoch 6 8])
          = Inr (length [test_epoch 5 7] + 1, files')"
    and s: "sized (max 1 (length [test_epoch 5 7])) (files I)"
       "sized (length [test_epoch 5 7] + 1) (grow (length [test_epoch 5 7]) (files I))"
       "sized (length [test_epoch 5 7] + 1) (files' I)"
    and t: "take (length [test_epoch 5 7]) (aqtime (files' I))
              = take (length [test_epoch 5 7]) (aqtime (files I))"
    and r: "\<forall>j \<le> length [test_epoch 5 7].
              time (([test_epoch 5 7] @ [test_epoch 6 8]) ! j) = Some (aqtime (files' I) ! j)
              \<and> pkt_cnt (files' I) ! j
                  = int32_cast (uint (hd (raw_pkt_cnt (([test_epoch 5 7] @ [test_epoch 6 8]) ! j))))"
    by blast
  have le: "(0::nat) \<le> length [test_epoch 5 7]" "(1::nat) \<le> length [test_epoch 5 7]"
    by simp_all
  from spec [OF r, of 0] le(1) have r0: "time (test_epoch 5 7) = Some (aqtime (files' I) ! 0)"
    "pkt_cnt (files' I) ! 0 = int32_cast (uint (hd (raw_pkt_cnt (test_epoch 5 7))))"
    by simp_all
  from spec [OF r, of 1] le(2) have r1: "time (test_epoch 6 8) = Some (aqtime (files' I) ! 1)"
    "pkt_cnt (files' I) ! 1 = int32_cast (uint (hd (raw_pkt_cnt (test_epoch 6 8))))"
    by simp_all
  from r0 r1 have v: "aqtime (files' I) ! 0 = 5" "aqtime (files' I) ! 1 = 6"
    "pkt_cnt (files' I) ! 0 = 7" "pkt_cnt (files' I) ! 1 = 8"
    by (simp_all add: test_epoch_def int32_cast_def)
  from a s t have
    "average_one_second [test_epoch 5 7] = Inr (1, files)"
    "average_one_second ([test_epoch 5 7] @ [test_epoch 6 8]) = Inr (2, files')"
    "sized 1 (files I)" "sized 2 (grow 1 (files I))" "sized 2 (files' I)"
    "take 1 (aqtime (files' I)) = take 1 (aqtime (files I))"
    by (simp_all add: numeral_2_eq_2)
  with h v show ?thesis by blast
qed


lemma mean_axis0_Inr:
  assumes "mean_axis0 rnd rows = Inr m"
  shows "rows \<noteq> [] \<and> length m = length (hd rows)
         \<and> (\<forall>j < length (hd rows).
               m ! j = rnd (np_sum rnd (map (\<lambda>x. x ! j) rows) / rnd (of_nat (length rows))))"
proof -
  from assms obtain r rs where rows: "rows = r # rs"
    by (auto simp: mean_axis0_def split: list.splits)
  from assms rows have m: "m = map (\<lambda>j. rnd (np_sum rnd (map (\<lambda>x. x ! j) rows) / rnd (of_nat (length rows))))
                               [0..<length r]"
    by (auto simp: mean_axis0_def split: if_splits)
  have nth: "m ! j = rnd (np_sum rnd (map (\<lambda>x. x ! j) rows) / rnd (of_nat (length rows)))"
    if "j < length r" for j
    using that by (simp add: m)
  have "rows \<noteq> []" "hd rows = r" using rows by simp_all
  moreover have "length m = length r" by (simp add: m)
  ultimately show ?thesis using nth by simp
qed

lemma as_row_1024:
  assumes "as_row m = Inr r" and "length m = 1024"
  shows "r = m"
  using assms by (simp add: as_row_def)

text \<open>
  The sum of fewer than \<open>2^37\<close> sixteen-bit samples is below \<open>2^53\<close>, so the
  \<open>float64\<close> sum of a column of power samples is exact, and so is the row count.
\<close>

lemma sum_list_u16:
  "sum_list (map (\<lambda>r. unat ((r :: u16 list) ! j)) rs) \<le> length rs * 65535"
proof (induction rs)
  case Nil
  then show ?case by simp
next
  case (Cons r rs)
  have "unat (r ! j) < 2 ^ LENGTH(16)" by (rule unsigned_less)
  then have "unat (r ! j) \<le> 65535" by simp
  with Cons show ?case by simp
qed

lemma column_sum:
  "sum_list (map (\<lambda>x. x ! j) rows) = (\<Sum>i<length rows. (rows :: rat list list) ! i ! j)"
  by (simp add: sum_list_sum_nth atLeast0LessThan)

lemma power_column_mean:
  assumes "length rs < 2 ^ 37" and "\<forall>row \<in> set rs. j < length row"
  shows "float64 (np_sum float64 (map (\<lambda>x. x ! j) (map (map (\<lambda>w. of_nat (unat w))) rs))
                  / float64 (of_nat (length (map (map (\<lambda>w. rat_of_nat (unat w))) rs))))
         = float64 (spec_mean (map (map (\<lambda>w. of_nat (unat (w :: u16)))) rs) j)"
proof -
  let ?rows = "map (map (\<lambda>w. rat_of_nat (unat w))) rs"
  let ?ns = "map (\<lambda>r. unat (r ! j)) rs"
  have col: "map (\<lambda>x. x ! j) ?rows = map of_nat ?ns"
    using assms(2) by (simp add: comp_def)
  have "length rs * 65535 < 2 ^ 37 * 65536"
    using assms(1) by (simp add: mult_strict_mono [of _ "2 ^ 37" 65535 65536  ] less_imp_le)
  then have "length rs * 65535 < (2::nat) ^ 53" by simp
  with sum_list_u16 [of j rs] have lt: "sum_list ?ns < 2 ^ 53" by (rule le_less_trans)
  have s: "np_sum float64 (map (\<lambda>x. x ! j) ?rows) = of_nat (sum_list ?ns)"
    unfolding col float64_def by (rule np_sum_nat [OF lt])
  from assms(1) have "length rs < (2::nat) ^ 53"
    by (rule less_trans) simp
  then have n: "float64 (of_nat (length ?rows)) = of_nat (length ?rows)"
    unfolding float64_def by (simp add: round_sig_nat)
  have "rat_of_nat (sum_list ?ns) = sum_list (map (\<lambda>x. x ! j) ?rows)"
    unfolding col by (induction rs) simp_all
  also have "\<dots> = (\<Sum>i<length ?rows. ?rows ! i ! j)"
    by (rule column_sum)
  finally have "rat_of_nat (sum_list ?ns) = (\<Sum>i<length ?rows. ?rows ! i ! j)" .
  then show ?thesis
    unfolding s n spec_mean_def by simp
qed


lemma int32_cast_small:
  assumes "uint c < 2 ^ 31"
  shows "int32_cast (uint (c :: u32)) = uint c"
proof -
  have "int32_cast (uint c) = signed_take_bit 31 (uint c)"
    by (simp add: int32_cast_def sint_uint)
  also have "\<dots> = uint c"
  proof (rule signed_take_bit_int_eq_self)
    show "- (2 ^ 31) \<le> uint c"
      by (rule order_trans [of _ 0]) simp_all
    show "uint c < 2 ^ 31" by (rule assms)
  qed
  finally show ?thesis .
qed

lemma pwr_rows:
  "pwr ep ch = map (map (\<lambda>w. of_nat (unat w))) (case ch of I \<Rightarrow> pwr_I ep | Q \<Rightarrow> pwr_Q ep)"
  by (simp add: pwr_def)

text \<open>What one pass of the averager leaves in the row it writes.\<close>

lemma average_epoch_rows:
  assumes "average_epoch counter ep files = Inr files'"
    and "\<forall>row \<in> set (pwr ep ch). length row = 1024"
    and "\<forall>row \<in> set (krt ep ch). length row = 1024"
    and "length (pwr ep ch) < 2 ^ 37"
  shows "time ep = Some (aqtime (files' ch) ! counter)
         \<and> raw_pkt_cnt ep \<noteq> []
         \<and> pkt_cnt (files' ch) ! counter = int32_cast (uint (hd (raw_pkt_cnt ep)))
         \<and> length (power_ds (files' ch) ! counter) = 1024
         \<and> length (kurtosis (files' ch) ! counter) = 1024
         \<and> (\<forall>j < 1024.
               power_ds (files' ch) ! counter ! j = float32 (float64 (spec_mean (pwr ep ch) j))
               \<and> kurtosis (files' ch) ! counter ! j
                   = float32 (np_sum float32 (map (\<lambda>row. row ! j) (krt ep ch))
                              / float32 (of_nat (length (krt ep ch)))))"
proof -
  from average_epoch_channel [OF assms(1), of ch] obtain t c cs where
    tm: "time ep = Some t" and rc: "raw_pkt_cnt ep = c # cs"
    and w: "write_row counter ep t c ch (files ch) = Inr (files' ch)" by blast
  from write_row_parts [OF w] obtain mp mk rp rk where
    m: "mean_axis0 float64 (pwr ep ch) = Inr mp" "as_row mp = Inr rp"
       "mean_axis0 float32 (krt ep ch) = Inr mk" "as_row mk = Inr rk"
    and l: "counter < length (aqtime (grow counter (files ch)))"
       "counter < length (pkt_cnt (grow counter (files ch)))"
       "counter < length (power_ds (grow counter (files ch)))"
       "counter < length (kurtosis (grow counter (files ch)))"
    and f': "files' ch = \<lparr> aqtime = (aqtime (grow counter (files ch)))[counter := t],
                   pkt_cnt = (pkt_cnt (grow counter (files ch)))[counter := int32_cast (uint c)],
                   power_ds = (power_ds (grow counter (files ch)))[counter := map float32 rp],
                   kurtosis = (kurtosis (grow counter (files ch)))[counter := rk] \<rparr>"
    by blast
  from l have rows: "aqtime (files' ch) ! counter = t"
    "pkt_cnt (files' ch) ! counter = int32_cast (uint c)"
    "power_ds (files' ch) ! counter = map float32 rp" "kurtosis (files' ch) ! counter = rk"
    by (simp_all add: f')
  note mp = mean_axis0_Inr [OF m(1)] and mk = mean_axis0_Inr [OF m(3)]
  from mp assms(2) have lp: "length mp = 1024" by simp
  from mk assms(3) have lk: "length mk = 1024" by simp
  have rp: "rp = mp" using m(2) lp by (rule as_row_1024)
  have rk: "rk = mk" using m(4) lk by (rule as_row_1024)
  let ?rs = "case ch of I \<Rightarrow> pwr_I ep | Q \<Rightarrow> pwr_Q ep"
  have pj: "mp ! j = float64 (spec_mean (pwr ep ch) j)" if "j < 1024" for j
  proof -
    from mp lp that have "mp ! j = float64 (np_sum float64 (map (\<lambda>x. x ! j) (pwr ep ch))
                                         / float64 (of_nat (length (pwr ep ch))))"
      by simp
    moreover have "length ?rs < 2 ^ 37" using assms(4) by (simp add: pwr_rows)
    moreover have "\<forall>row \<in> set ?rs. j < length row"
      using assms(2) that by (simp add: pwr_rows)
    ultimately show ?thesis
      unfolding pwr_rows by (simp only: power_column_mean)
  qed
  have kj: "mk ! j = float32 (np_sum float32 (map (\<lambda>row. row ! j) (krt ep ch))
                              / float32 (of_nat (length (krt ep ch))))" if "j < 1024" for j
    using mk lk that by simp
  show ?thesis
    unfolding rows tm rc rp rk using lp lk pj kj by simp
qed

lemma float_5_3: "float32 (float64 (5 / 3)) = 13981013 / 8388608"
  unfolding float32_def float64_def by code_simp

lemma three_packets_wf: "well_formed (three_packets t c)"
  by (simp add: well_formed_def three_packets_def list_all_iff)

lemma three_packets_rows:
  "\<forall>row \<in> set (pwr (three_packets t c) I). length row = 1024"
  "\<forall>row \<in> set (krt (three_packets t c) I). length row = 1024"
  "length (pwr (three_packets t c) I) < 2 ^ 37"
  by (simp_all add: pwr_def krt_def three_packets_def list_all_iff)

lemma three_packets_mean: "spec_mean (pwr (three_packets t c) I) 0 = 5 / 3"
  by (simp add: spec_mean_def pwr_def three_packets_def lessThan_Suc numeral_3_eq_3)

lemma three_packets_averaged:
  "\<exists>files'. average_epoch 0 (three_packets t c) open_monitor_files = Inr files'
            \<and> power_ds (files' I) ! 0 ! 0 = 13981013 / 8388608
            \<and> pkt_cnt (files' I) ! 0 = int32_cast (uint c)
            \<and> aqtime (files' I) ! 0 = t"
proof -
  have "sized (max 1 0) (open_monitor_files ch)" for ch
    using open_monitor_files_sized [of ch] by simp
  from average_epoch_succeeds [where files = open_monitor_files and counter = 0,
      OF three_packets_wf this]
  obtain files' where a: "average_epoch 0 (three_packets t c) open_monitor_files = Inr files'"
    by blast
  note r = average_epoch_rows [OF a three_packets_rows]
  from r have "power_ds (files' I) ! 0 ! 0 = float32 (float64 (spec_mean (pwr (three_packets t c) I) 0))"
    by simp
  then have p: "power_ds (files' I) ! 0 ! 0 = 13981013 / 8388608"
    by (simp only: three_packets_mean float_5_3)
  from r have c: "pkt_cnt (files' I) ! 0 = int32_cast (uint c)"
    by (simp add: three_packets_def)
  from r have t: "aqtime (files' I) ! 0 = t"
    by (simp add: three_packets_def)
  from a p c t show ?thesis by blast
qed

text \<open>
  C4, as stated, fails.  For a batch of three packets whose power samples are 1, 2 and
  2, the mean is \<open>5/3\<close>, which no binary floating-point number equals: the row of
  \<open>power\<close> holds \<open>13981013 / 2^23\<close>.  And where the first raw packet counter of the
  batch is \<open>2^31\<close> or more, the row of the signed 32-bit dataset \<open>pkt cnt\<close> reads back
  as a negative number.
\<close>

theorem monitor_row_counterexample:
  "read_power (average_epoch 0 (three_packets 5 2147483648) open_monitor_files) I 0 0
     = Some (13981013 / 8388608)
   \<and> spec_mean (pwr (three_packets 5 2147483648) I) 0 = 5 / 3
   \<and> read_pkt_cnt (average_epoch 0 (three_packets 5 2147483648) open_monitor_files) I 0
     = Some (- 2147483648)
   \<and> uint (hd (raw_pkt_cnt (three_packets 5 2147483648))) = 2147483648"
proof -
  from three_packets_averaged [of 5 2147483648] obtain files' where
    a: "average_epoch 0 (three_packets 5 2147483648) open_monitor_files = Inr files'"
    and p: "power_ds (files' I) ! 0 ! 0 = 13981013 / 8388608"
    and c: "pkt_cnt (files' I) ! 0 = int32_cast (uint (2147483648 :: u32))"
    by blast
  have "read_power (average_epoch 0 (three_packets 5 2147483648) open_monitor_files) I 0 0
     = Some (13981013 / 8388608)"
    by (simp add: a read_power_def p)
  moreover have "read_pkt_cnt (average_epoch 0 (three_packets 5 2147483648) open_monitor_files) I 0
     = Some (- 2147483648)"
    by (simp add: a read_pkt_cnt_def c int32_cast_def)
  moreover have "uint (hd (raw_pkt_cnt (three_packets 5 2147483648))) = 2147483648"
    by (simp add: three_packets_def)
  ultimately show ?thesis using three_packets_mean by blast
qed


text \<open>
  C4, amended.  When the averager has processed a dictionary of fewer than \<open>2^37\<close>
  packets whose sample arrays are all 1024 wide, then for each channel the row at index
  \<open>counter\<close> holds: in \<open>time\<close> the capture time of the dictionary; in \<open>pkt cnt\<close> the
  raw packet counter of its first packet cast to a signed 32-bit integer, which is the
  counter itself whenever that is below \<open>2^31\<close>; in \<open>power\<close> the arithmetic mean over
  the batch of that channel's power samples, entry by entry, rounded to \<open>float64\<close> and
  then to \<open>float32\<close>; in \<open>kurtosis\<close> the mean of the kurtosis samples as
  \<open>float32\<close> arithmetic gives it: the samples of the batch added in order, each sum
  rounded, and the total divided by the number of packets, rounded.
\<close>

theorem monitor_row_means:
  assumes "average_epoch counter ep files = Inr files'"
    and "\<forall>row \<in> set (pwr ep ch). length row = 1024"
    and "\<forall>row \<in> set (krt ep ch). length row = 1024"
    and "length (pwr ep ch) < 2 ^ 37"
  shows "time ep = Some (aqtime (files' ch) ! counter)
         \<and> raw_pkt_cnt ep \<noteq> []
         \<and> pkt_cnt (files' ch) ! counter = int32_cast (uint (hd (raw_pkt_cnt ep)))
         \<and> (uint (hd (raw_pkt_cnt ep)) < 2 ^ 31
              \<longrightarrow> pkt_cnt (files' ch) ! counter = uint (hd (raw_pkt_cnt ep)))
         \<and> length (power_ds (files' ch) ! counter) = 1024
         \<and> length (kurtosis (files' ch) ! counter) = 1024
         \<and> (\<forall>j < 1024.
               power_ds (files' ch) ! counter ! j = float32 (float64 (spec_mean (pwr ep ch) j))
               \<and> kurtosis (files' ch) ! counter ! j
                   = float32 (np_sum float32 (map (\<lambda>row. row ! j) (krt ep ch))
                              / float32 (of_nat (length (krt ep ch)))))"
proof -
  note r = average_epoch_rows [OF assms]
  have small: "uint (hd (raw_pkt_cnt ep)) < 2 ^ 31
                 \<longrightarrow> int32_cast (uint (hd (raw_pkt_cnt ep))) = uint (hd (raw_pkt_cnt ep))"
    using int32_cast_small by blast
  from r small show ?thesis by simp
qed

theorem monitor_row_means_witness:
  "list_all (\<lambda>row. length row = 1024) (pwr (three_packets 5 7) I)
   \<and> list_all (\<lambda>row. length row = 1024) (krt (three_packets 5 7) I)
   \<and> length (pwr (three_packets 5 7) I) < 2 ^ 37
   \<and> uint (hd (raw_pkt_cnt (three_packets 5 7))) < 2 ^ 31
   \<and> (\<exists>files'. average_epoch 0 (three_packets 5 7) open_monitor_files = Inr files'
         \<and> time (three_packets 5 7) = Some (aqtime (files' I) ! 0)
         \<and> pkt_cnt (files' I) ! 0 = 7
         \<and> length (power_ds (files' I) ! 0) = 1024
         \<and> power_ds (files' I) ! 0 ! 0 = float32 (float64 (spec_mean (pwr (three_packets 5 7) I) 0))
         \<and> power_ds (files' I) ! 0 ! 0 = 13981013 / 8388608
         \<and> kurtosis (files' I) ! 0 ! 0
             = float32 (np_sum float32 (map (\<lambda>row. row ! 0) (krt (three_packets 5 7) I))
                        / float32 (of_nat (length (krt (three_packets 5 7) I)))))"
proof -
  from three_packets_averaged [of 5 7] obtain files' where
    a: "average_epoch 0 (three_packets 5 7) open_monitor_files = Inr files'"
    by blast
  have h: "list_all (\<lambda>row. length row = 1024) (pwr (three_packets 5 7) I)"
    "list_all (\<lambda>row. length row = 1024) (krt (three_packets 5 7) I)"
    "length (pwr (three_packets 5 7) I) < 2 ^ 37"
    using three_packets_rows [of 5 7] by (simp_all add: list_all_iff)
  have s: "uint (hd (raw_pkt_cnt (three_packets 5 7))) < 2 ^ 31"
    by (simp add: three_packets_def)
  note r = monitor_row_means [OF a three_packets_rows]
  from r have t: "time (three_packets 5 7) = Some (aqtime (files' I) ! 0)" by (rule conjunct1)
  from r s have "pkt_cnt (files' I) ! 0 = uint (hd (raw_pkt_cnt (three_packets 5 7)))" by blast
  then have c: "pkt_cnt (files' I) ! 0 = 7" by (simp add: three_packets_def)
  from r have l: "length (power_ds (files' I) ! 0) = 1024" by blast
  from r have al: "\<forall>j < 1024.
               power_ds (files' I) ! 0 ! j = float32 (float64 (spec_mean (pwr (three_packets 5 7) I) j))
               \<and> kurtosis (files' I) ! 0 ! j
                   = float32 (np_sum float32 (map (\<lambda>row. row ! j) (krt (three_packets 5 7) I))
                              / float32 (of_nat (length (krt (three_packets 5 7) I))))"
    by blast
  from spec [OF al, of 0] have p: "power_ds (files' I) ! 0 ! 0
        = float32 (float64 (spec_mean (pwr (three_packets 5 7) I) 0))"
    and k: "kurtosis (files' I) ! 0 ! 0
             = float32 (np_sum float32 (map (\<lambda>row. row ! 0) (krt (three_packets 5 7) I))
                        / float32 (of_nat (length (krt (three_packets 5 7) I))))"
    by simp_all
  from p have v: "power_ds (files' I) ! 0 ! 0 = 13981013 / 8388608"
    by (simp only: three_packets_mean float_5_3)
  from a h s t c l p v k show ?thesis by blast
qed


subsection \<open>The main loop\<close>


lemma to_time_t_of_int: "to_time_t (of_int k) = k"
  by (simp add: to_time_t_def)

lemma tm_hour_range: "0 \<le> tm_hour s \<and> tm_hour s < 24"
proof -
  have "0 \<le> s mod 86400" "s mod 86400 < 86400" by simp_all
  then show ?thesis unfolding tm_hour_def by auto
qed

lemma recorded_step:
  "recorded (st\<lparr> monitor_queue := monitor_queue st @ [e],
                groups := groups st @ [(grpnum st, e)],
                grpnum := grpnum st + 1 \<rparr>) es
   = recorded st (e # es)"
  by (simp add: recorded_def upt_conv_Cons del: upt_Suc)

lemma recorded_Nil: "recorded st [] = st"
  by (simp add: recorded_def)

lemma run_loop_continue:
  assumes "\<forall>e \<in> set es. \<exists>t. time e = Some t \<and> \<not> end_reached end_hms t"
  shows "run_loop end_hms st (map Got es @ evs) = run_loop end_hms (recorded st es) evs"
  using assms
proof (induction es arbitrary: st)
  case Nil
  then show ?case by (simp add: recorded_Nil)
next
  case (Cons e es)
  from Cons.prems obtain t where t: "time e = Some t" "\<not> end_reached end_hms t" by auto
  from Cons.prems have rest: "\<forall>e \<in> set es. \<exists>t. time e = Some t \<and> \<not> end_reached end_hms t"
    by simp
  have "run_loop end_hms st (map Got (e # es) @ evs)
        = run_loop end_hms
            (st\<lparr> monitor_queue := monitor_queue st @ [e],
                  groups := groups st @ [(grpnum st, e)],
                  grpnum := grpnum st + 1 \<rparr>) (map Got es @ evs)"
    by (simp only: list.map append_Cons run_loop.simps t option.case if_False)
  also have "\<dots> = run_loop end_hms (recorded st (e # es)) evs"
    by (simp only: Cons.IH [OF rest] recorded_step)
  finally show ?case .
qed

lemma run_loop_never:
  assumes "\<And>t. \<not> end_reached end_hms t"
  shows "fst (run_loop end_hms st evs) \<noteq> EndTime"
proof (induction evs arbitrary: st)
  case Nil
  then show ?case by simp
next
  case (Cons ev evs)
  show ?case
  proof (cases ev)
    case (Got one_second)
    with Cons.IH show ?thesis by (simp add: assms split: option.splits)
  next
    case KeyboardInterrupt
    then show ?thesis by simp
  qed
qed

lemma tm_hour_alt: "tm_hour s = (s div 3600) mod 24"
proof -
  have "s mod (3600 * 24) = 3600 * (s div 3600 mod 24) + s mod 3600"
    by (rule zmod_zmult2_eq) simp
  then have "(s mod 86400) div 3600 = (3600 * (s div 3600 mod 24) + s mod 3600) div 3600"
    by simp
  also have "\<dots> = s div 3600 mod 24" by simp
  finally show ?thesis by (simp add: tm_hour_def)
qed

lemma next_hour:
  assumes "tm_hour s < 23"
  shows "tm_hour (s - s mod 3600 + 3600) = tm_hour s + 1
         \<and> tm_min (s - s mod 3600 + 3600) = 0 \<and> tm_sec (s - s mod 3600 + 3600) = 0"
proof -
  have e: "s - s mod 3600 + 3600 = 3600 * (s div 3600 + 1)"
    by (simp add: minus_mod_eq_mult_div algebra_simps)
  from assms have h: "(s div 3600) mod 24 < 23" by (simp add: tm_hour_alt)
  have "0 \<le> (s div 3600) mod 24" by simp
  with h have "(s div 3600 + 1) mod 24 = (s div 3600) mod 24 + 1"
    by (smt (verit) mod_add_left_eq mod_pos_pos_trivial)
  then have "tm_hour (3600 * (s div 3600 + 1)) = tm_hour s + 1"
    by (simp add: tm_hour_alt)
  moreover have "tm_min (3600 * (s div 3600 + 1)) = 0"
    by (simp add: tm_min_def)
  moreover have "tm_sec (3600 * (s div 3600 + 1)) = 0"
    by (simp add: tm_sec_def)
  ultimately show ?thesis unfolding e by simp
qed


lemma test_epoch_time: "time (test_epoch t c) = Some t"
  by (simp add: test_epoch_def)

lemma end_reached_1_0_0:
  "\<not> end_reached (1, 0, 0) 10" "end_reached (1, 0, 0) 3600"
  by (simp_all add: end_reached_def to_time_t_def tm_hour_def tm_min_def tm_sec_def)

text \<open>
  C6, as stated, fails: the loop also ends when the process is interrupted from the
  keyboard, whatever the times of the dictionaries dequeued so far.
\<close>

theorem run_loop_interrupt_counterexample:
  "fst (run_loop (1, 0, 0) new_recorder [Got (test_epoch 10 0), KeyboardInterrupt]) = Interrupted
   \<and> \<not> end_reached (1, 0, 0) 10"
  by (simp add: test_epoch_time end_reached_1_0_0)

text \<open>
  C6, amended.  As long as the dequeued dictionaries carry times whose UTC hour, minute
  and second do not all equal \<open>(endhr, endmin, endsec)\<close>, the loop goes on waiting for the
  next one; it ends at the first dictionary whose time does, and it also ends when the
  process is interrupted from the keyboard.  An end time given at start-up is used with
  second 0; without one, and when the server starts before 23 h UTC, the target is
  minute 0, second 0 of the start hour plus one, which is the top of the next UTC hour.
\<close>

theorem run_loop_exit:
  assumes "\<forall>e \<in> set es. \<exists>t. time e = Some t \<and> \<not> end_reached end_hms t"
  shows "fst (run_loop end_hms st (map Got es)) = Waiting
         \<and> (time e = Some t \<and> end_reached end_hms t
              \<longrightarrow> fst (run_loop end_hms st (map Got es @ Got e # evs)) = EndTime)
         \<and> fst (run_loop end_hms st (map Got es @ KeyboardInterrupt # evs)) = Interrupted
         \<and> init_endtime (Some (h, m)) now = (h, m, 0)
         \<and> (tm_hour (to_time_t now) < 23
              \<longrightarrow> init_endtime None now = (tm_hour (to_time_t now) + 1, 0, 0)
                \<and> end_reached (init_endtime None now)
                     (of_int (to_time_t now - to_time_t now mod 3600 + 3600)))"
proof -
  have a: "fst (run_loop end_hms st (map Got es)) = Waiting"
    using run_loop_continue [OF assms, of st "[]"] by simp
  have b: "fst (run_loop end_hms st (map Got es @ Got e # evs)) = EndTime"
    if "time e = Some t" "end_reached end_hms t"
    using run_loop_continue [OF assms, of st "Got e # evs"] that by simp
  have c: "fst (run_loop end_hms st (map Got es @ KeyboardInterrupt # evs)) = Interrupted"
    using run_loop_continue [OF assms, of st "KeyboardInterrupt # evs"] by simp
  have d: "init_endtime (Some (h, m)) now = (h, m, 0)"
    by (simp add: init_endtime_def)
  have e: "init_endtime None now = (tm_hour (to_time_t now) + 1, 0, 0)"
    by (simp add: init_endtime_def)
  have f: "end_reached (init_endtime None now)
             (of_int (to_time_t now - to_time_t now mod 3600 + 3600))"
    if "tm_hour (to_time_t now) < 23"
    using next_hour [OF that] unfolding e end_reached_def to_time_t_of_int by simp
  from a b c d e f show ?thesis by blast
qed

theorem run_loop_exit_witness:
  "list_all (\<lambda>e. time e = Some 10 \<and> \<not> end_reached (1, 0, 0) 10) [test_epoch 10 0]
   \<and> time (test_epoch 3600 1) = Some 3600 \<and> end_reached (1, 0, 0) 3600
   \<and> tm_hour (to_time_t 10) < 23
   \<and> fst (run_loop (1, 0, 0) new_recorder (map Got [test_epoch 10 0])) = Waiting
   \<and> fst (run_loop (1, 0, 0) new_recorder
            (map Got [test_epoch 10 0] @ Got (test_epoch 3600 1) # [])) = EndTime
   \<and> fst (run_loop (1, 0, 0) new_recorder
            (map Got [test_epoch 10 0] @ KeyboardInterrupt # [])) = Interrupted
   \<and> init_endtime (Some (13, 20)) 10 = (13, 20, 0)
   \<and> init_endtime None 10 = (tm_hour (to_time_t 10) + 1, 0, 0)
   \<and> end_reached (init_endtime None 10) (of_int (to_time_t 10 - to_time_t 10 mod 3600 + 3600))"
proof -
  have h1: "\<forall>e \<in> set [test_epoch 10 0]. \<exists>t. time e = Some t \<and> \<not> end_reached (1, 0, 0) t"
    by (simp add: test_epoch_time end_reached_1_0_0)
  have h2: "time (test_epoch 3600 1) = Some 3600 \<and> end_reached (1, 0, 0) 3600"
    by (simp add: test_epoch_time end_reached_1_0_0)
  have h3: "tm_hour (to_time_t 10) < 23"
    by (simp add: to_time_t_def tm_hour_def)
  have h0: "list_all (\<lambda>e. time e = Some 10 \<and> \<not> end_reached (1, 0, 0) 10) [test_epoch 10 0]"
    by (simp add: test_epoch_time end_reached_1_0_0)
  from run_loop_exit [OF h1, where st = new_recorder and e = "test_epoch 3600 1" and t = 3600
      and evs = "[]" and h = 13 and m = 20 and now = 10] h0 h2 h3
  show ?thesis by blast
qed

text \<open>
  C9.  When the dictionary that meets the end condition is dequeued, the loop ends with
  the recorder as the dictionaries before it left it: they are on the monitor queue and
  in the file, one group each, and \<open>grpnum\<close> counts them.  The last dictionary is not on
  the monitor queue, has no group, and the state is the one the loop would have had
  if that dictionary had never arrived.
\<close>

theorem end_epoch_discarded:
  assumes "\<forall>e \<in> set es. \<exists>t. time e = Some t \<and> \<not> end_reached end_hms t"
    and "time e = Some t" and "end_reached end_hms t"
  shows "run_loop end_hms st (map Got es @ Got e # evs) = (EndTime, recorded st es)
         \<and> snd (run_loop end_hms st (map Got es @ Got e # evs))
             = snd (run_loop end_hms st (map Got es))
         \<and> monitor_queue (recorded st es) = monitor_queue st @ es
         \<and> map snd (groups (recorded st es)) = map snd (groups st) @ es
         \<and> map fst (groups (recorded st es))
             = map fst (groups st) @ [grpnum st..<grpnum st + length es]
         \<and> grpnum (recorded st es) = grpnum st + length es"
proof -
  have a: "run_loop end_hms st (map Got es @ Got e # evs) = (EndTime, recorded st es)"
    using run_loop_continue [OF assms(1), of st "Got e # evs"] assms(2,3) by simp
  have b: "run_loop end_hms st (map Got es) = (Waiting, recorded st es)"
    using run_loop_continue [OF assms(1), of st "[]"] by simp
  show ?thesis
    unfolding a b by (simp add: recorded_def)
qed

theorem end_epoch_discarded_witness:
  "list_all (\<lambda>e. time e = Some 10 \<and> \<not> end_reached (1, 0, 0) 10) [test_epoch 10 0]
   \<and> time (test_epoch 3600 1) = Some 3600 \<and> end_reached (1, 0, 0) 3600
   \<and> run_loop (1, 0, 0) new_recorder (map Got [test_epoch 10 0] @ Got (test_epoch 3600 1) # [])
       = (EndTime, recorded new_recorder [test_epoch 10 0])
   \<and> monitor_queue (recorded new_recorder [test_epoch 10 0])
       = monitor_queue new_recorder @ [test_epoch 10 0]
   \<and> grpnum (recorded new_recorder [test_epoch 10 0])
       = grpnum new_recorder + length [test_epoch 10 0]"
proof -
  have h1: "\<forall>e \<in> set [test_epoch 10 0]. \<exists>t. time e = Some t \<and> \<not> end_reached (1, 0, 0) t"
    by (simp add: test_epoch_time end_reached_1_0_0)
  have h2: "time (test_epoch 3600 1) = Some 3600" by (rule test_epoch_time)
  have h3: "end_reached (1, 0, 0) 3600" by (rule end_reached_1_0_0)
  have h0: "list_all (\<lambda>e. time e = Some 10 \<and> \<not> end_reached (1, 0, 0) 10) [test_epoch 10 0]"
    by (simp add: test_epoch_time end_reached_1_0_0)
  from end_epoch_discarded [OF h1 h2 h3, where st = new_recorder and evs = "[]"] h0 h2 h3
  show ?thesis by blast
qed

text \<open>
  C10.  When the server starts during UTC hour 23 and no end time is given, the end hour
  is 24.  The hour of a time is always between 0 and 23, so no time meets the end
  condition, and the loop never ends by it, whatever is dequeued.
\<close>

theorem default_end_hour_24:
  assumes "tm_hour (to_time_t now) = 23"
  shows "init_endtime None now = (24, 0, 0)
         \<and> 0 \<le> tm_hour (to_time_t t) \<and> tm_hour (to_time_t t) \<le> 23
         \<and> \<not> end_reached (init_endtime None now) t
         \<and> fst (run_loop (init_endtime None now) st evs) \<noteq> EndTime"
proof -
  have e: "init_endtime None now = (24, 0, 0)"
    using assms by (simp add: init_endtime_def)
  have r: "0 \<le> tm_hour (to_time_t x) \<and> tm_hour (to_time_t x) \<le> 23" for x
    using tm_hour_range [of "to_time_t x"] by simp
  have n: "\<not> end_reached (24, 0, 0) x" for x
    using tm_hour_range [of "to_time_t x"] by (simp add: end_reached_def)
  from run_loop_never [of "(24, 0, 0)" st evs, OF n] e r n show ?thesis by simp
qed

theorem default_end_hour_24_witness:
  "tm_hour (to_time_t 82800) = 23
   \<and> init_endtime None 82800 = (24, 0, 0)
   \<and> \<not> end_reached (init_endtime None 82800) 86400
   \<and> fst (run_loop (init_endtime None 82800) new_recorder [Got (test_epoch 86400 0)]) \<noteq> EndTime"
proof -
  have h: "tm_hour (to_time_t 82800) = 23"
    by (simp add: to_time_t_def tm_hour_def)
  from default_end_hour_24 [OF h, where t = 86400 and st = new_recorder
      and evs = "[Got (test_epoch 86400 0)]"] h
  show ?thesis by blast
qed

subsection \<open>Shutdown\<close>


lemma calls_append: "calls (xs @ ys) = calls xs @ calls ys"
  by (simp add: calls_def)

lemma calls_Call: "calls (map Call as) = as"
  by (induction as) (simp_all add: calls_def)

lemma calls_simps:
  "calls [] = []" "calls (Call a # tr) = a # calls tr"
  "calls (LogDone a # tr) = calls tr" "calls (LogFailed a # tr) = calls tr"
  by (simp_all add: calls_def)

lemma try_body_ok:
  assumes "\<forall>a \<in> set as. env a = None"
  shows "try_body env as = (map Call as, None)"
  using assms by (induction as) simp_all

lemma try_body_last_raises:
  assumes "\<forall>a \<in> set as. env a = None" and "env a = Some e"
  shows "try_body env (as @ [a]) = (map Call (as @ [a]), Some (a, e))"
  using assms by (induction as) simp_all

lemma guarded_tolerated:
  assumes "tolerated env (body, caught)"
  shows "guarded env (body, caught)
         = (map Call body @ [if env (last body) = None then LogDone (last body)
                             else LogFailed (last body)], None)"
proof -
  from assms have ne: "body \<noteq> []" and bl: "\<forall>a \<in> set (butlast body). env a = None"
    by (simp_all add: tolerated_def)
  from ne have sp: "body = butlast body @ [last body]" by simp
  show ?thesis
  proof (cases "env (last body)")
    case None
    with bl sp have "\<forall>a \<in> set body. env a = None"
      by (metis butlast_snoc in_set_butlastD last_snoc rotate1.simps(2) set_ConsD set_rotate1)
    from try_body_ok [OF this] None show ?thesis by (simp add: guarded_def)
  next
    case (Some e)
    from assms Some have c: "caught e" by (simp add: tolerated_def)
    from try_body_last_raises [OF bl Some] sp
    have "try_body env body = (map Call body, Some (last body, e))" by simp
    with Some c show ?thesis by (simp add: guarded_def)
  qed
qed

lemma run_blocks_tolerated:
  assumes "\<forall>blk \<in> set blks. tolerated env blk"
  shows "snd (run_blocks env blks) = None
         \<and> calls (fst (run_blocks env blks)) = concat (map fst blks)
         \<and> (\<forall>blk \<in> set blks. env (last (fst blk)) \<noteq> None
               \<longrightarrow> LogFailed (last (fst blk)) \<in> set (fst (run_blocks env blks)))"
  using assms
proof (induction blks)
  case Nil
  then show ?case by (simp add: calls_def)
next
  case (Cons blk blks)
  obtain body caught where blk: "blk = (body, caught)" by (cases blk)
  from Cons.prems blk have t: "tolerated env (body, caught)" by simp
  from Cons.prems have rest: "\<forall>blk \<in> set blks. tolerated env blk" by simp
  note g = guarded_tolerated [OF t]
  note ih = Cons.IH [OF rest]
  obtain tr' r where rb: "run_blocks env blks = (tr', r)" by (cases "run_blocks env blks")
  with ih have r: "r = None" and c: "calls tr' = concat (map fst blks)"
    and l: "\<forall>b \<in> set blks. env (last (fst b)) \<noteq> None \<longrightarrow> LogFailed (last (fst b)) \<in> set tr'"
    by simp_all
  show ?case
    using g rb r c l by (auto simp: blk calls_append calls_Call calls_simps)
qed


lemma stop_blocks_calls:
  "concat (map fst stop_blocks)
   = [TerminateReader] @ map TerminateUnpacker [0..<num_workers]
     @ map TerminateAggregator [0..<num_aggregators]
     @ [ClearAveraging, Sleep, TerminateAverager, CloseSocket]"
  by (simp add: stop_blocks_def comp_def concat_map_singleton)

lemma stop_blocks_tolerated:
  assumes "env ClearAveraging = None" and "env Sleep = None"
    and "\<forall>a. env a = None \<or> env a = Some AttributeError \<or> a = CloseSocket"
  shows "\<forall>blk \<in> set stop_blocks. tolerated env blk"
proof -
  have one: "tolerated env ([a], \<lambda>e. e = AttributeError)" if "a \<noteq> CloseSocket" for a
  proof -
    from assms(3) that have "env a = None \<or> env a = Some AttributeError" by blast
    then show ?thesis by (auto simp: tolerated_def)
  qed
  have av: "tolerated env ([ClearAveraging, Sleep, TerminateAverager],
                           \<lambda>e. e = ValueError \<or> e = AttributeError)"
  proof -
    from assms(3) have "env TerminateAverager = None \<or> env TerminateAverager = Some AttributeError"
      by blast
    then show ?thesis using assms(1,2) by (auto simp: tolerated_def)
  qed
  have so: "tolerated env ([CloseSocket], \<lambda>e. True)"
    by (simp add: tolerated_def split: option.splits)
  show ?thesis
    unfolding stop_blocks_def using one av so by auto
qed

text \<open>
  C7, as stated, fails: when nothing raises, the flag of the averager is cleared before
  the reader is stopped, the averager is stopped before the socket is closed, and closing
  the socket is the last call.
\<close>

theorem shutdown_order_counterexample:
  "calls (fst (run_shutdown no_failure))
   = [ClearAveraging, TerminateReader,
      TerminateUnpacker 0, TerminateUnpacker 1, TerminateUnpacker 2, TerminateUnpacker 3,
      TerminateUnpacker 4, TerminateUnpacker 5, TerminateUnpacker 6, TerminateUnpacker 7,
      TerminateUnpacker 8, TerminateUnpacker 9, TerminateUnpacker 10, TerminateUnpacker 11,
      TerminateUnpacker 12, TerminateUnpacker 13, TerminateUnpacker 14, TerminateUnpacker 15,
      TerminateAggregator 0, TerminateAggregator 1, TerminateAggregator 2, TerminateAggregator 3,
      ClearAveraging, Sleep, TerminateAverager, CloseSocket]"
  by code_simp

text \<open>
  C7, amended.  The end of \<open>run\<close> and \<open>_terminate\<close> make their calls in this order: the
  flag of the averager is cleared; the reader is terminated; the unpackers are
  terminated, in order; the aggregators are terminated, in order; the flag is cleared
  again, the server sleeps for a second and terminates the averager; the socket is
  closed.  If terminating a process raises AttributeError (or closing the socket raises
  anything), the failure is logged, all the later calls are still made, and the
  procedure returns normally.
\<close>

theorem shutdown_order:
  assumes "env ClearAveraging = None" and "env Sleep = None"
    and "\<forall>a. env a = None \<or> env a = Some AttributeError \<or> a = CloseSocket"
  shows "calls (fst (run_shutdown env))
         = [ClearAveraging, TerminateReader] @ map TerminateUnpacker [0..<num_workers]
           @ map TerminateAggregator [0..<num_aggregators]
           @ [ClearAveraging, Sleep, TerminateAverager, CloseSocket]
         \<and> snd (run_shutdown env) = None
         \<and> (\<forall>blk \<in> set stop_blocks. env (last (fst blk)) \<noteq> None
               \<longrightarrow> LogFailed (last (fst blk)) \<in> set (fst (run_shutdown env)))"
proof -
  note t = run_blocks_tolerated [OF stop_blocks_tolerated [OF assms]]
  obtain tr r where tm: "terminate env = (tr, r)" by (cases "terminate env")
  with t have r: "r = None" and c: "calls tr = concat (map fst stop_blocks)"
    and l: "\<forall>blk \<in> set stop_blocks. env (last (fst blk)) \<noteq> None
               \<longrightarrow> LogFailed (last (fst blk)) \<in> set tr"
    by (simp_all add: terminate_def)
  have rs: "run_shutdown env = (Call ClearAveraging # tr, None)"
    using assms(1) tm r by (simp add: run_shutdown_def)
  show ?thesis
    unfolding rs using c l by (simp add: calls_simps stop_blocks_calls)
qed


theorem shutdown_order_witness:
  "(no_failure (TerminateUnpacker 3 := Some AttributeError)) ClearAveraging = None
   \<and> (no_failure (TerminateUnpacker 3 := Some AttributeError)) Sleep = None
   \<and> (no_failure (TerminateUnpacker 3 := Some AttributeError)) (TerminateUnpacker 3) \<noteq> None
   \<and> calls (fst (run_shutdown (no_failure (TerminateUnpacker 3 := Some AttributeError))))
       = [ClearAveraging, TerminateReader] @ map TerminateUnpacker [0..<num_workers]
         @ map TerminateAggregator [0..<num_aggregators]
         @ [ClearAveraging, Sleep, TerminateAverager, CloseSocket]
   \<and> snd (run_shutdown (no_failure (TerminateUnpacker 3 := Some AttributeError))) = None
   \<and> LogFailed (TerminateUnpacker 3)
       \<in> set (fst (run_shutdown (no_failure (TerminateUnpacker 3 := Some AttributeError))))"
proof -
  let ?env = "no_failure (TerminateUnpacker 3 := Some AttributeError)"
  have h1: "?env ClearAveraging = None" by (simp add: no_failure_def)
  have h2: "?env Sleep = None" by (simp add: no_failure_def)
  have h3: "\<forall>a. ?env a = None \<or> ?env a = Some AttributeError \<or> a = CloseSocket"
    by (simp add: no_failure_def)
  have h4: "?env (TerminateUnpacker 3) \<noteq> None" by simp
  have "(3::nat) \<in> set [0..<num_workers]" by (simp add: num_workers_def)
  then have m: "([TerminateUnpacker 3], \<lambda>e. e = AttributeError) \<in> set stop_blocks"
    unfolding stop_blocks_def by (auto intro!: image_eqI [where x = 3])
  note r = shutdown_order [OF h1 h2 h3]
  from r have al: "\<forall>blk \<in> set stop_blocks. ?env (last (fst blk)) \<noteq> None
               \<longrightarrow> LogFailed (last (fst blk)) \<in> set (fst (run_shutdown ?env))"
    by (elim conjE)
  from bspec [OF al m] have "LogFailed (TerminateUnpacker 3) \<in> set (fst (run_shutdown ?env))"
    by simp
  with r h1 h2 h4 show ?thesis by blast
qed

subsection \<open>Start-up\<close>

lemma sniff_signal_full:
  assumes "8208 \<le> length d"
  shows "sniff_signal (Datagram d) = Proceeds (take 4 d, take 4 (drop 4 d))"
proof -
  from assms have "unpack_from d = Inr \<lparr> result_hdr = take 8 d,
                 result_pkt_cnt_sec = be16 d 8,
                 result_sec_cnt = be16 d 10,
                 result_raw_pkt_cnt = be32 d 12,
                 result_data = map (\<lambda>k. be16 d (16 + 2 * k)) [0..<4096] \<rparr>"
    by (simp add: unpack_from_def)
  then show ?thesis
    by (simp add: sniff_signal_def take_drop min_def)
qed

lemma sniff_signal_short:
  assumes "length d < 8208"
  shows "sniff_signal (Datagram d) = Died StructError"
  using assms by (simp add: sniff_signal_def unpack_from_def)

text \<open>
  C8, as stated, fails: a datagram of three bytes arrives within the window, and start-up
  does not go on; \<open>unpack_from\<close> raises \<open>struct.error\<close>, which nothing catches.
\<close>

theorem short_datagram_counterexample:
  "sniff_signal (Datagram [88, 49, 52]) = Died StructError"
  by (simp add: sniff_signal_def unpack_from_def)

text \<open>
  C8, amended.  If no datagram arrives within the timeout, the server exits with status
  1.  If a datagram of at least 8208 bytes arrives, that exit does not happen, and the
  signal codes for I and Q are the first four and the next four bytes of the datagram;
  start-up goes on with them, the station numbers and the band letters when characters
  1 and 2 of each code are accepted by \<open>int\<close>.  A shorter datagram ends start-up with
  \<open>struct.error\<close>.
\<close>

theorem first_packet:
  "sniff_signal Timeout = Exit 1
   \<and> identify py_int Timeout = Exit 1
   \<and> (8208 \<le> length d
        \<longrightarrow> sniff_signal (Datagram d) = Proceeds (take 4 d, take 4 (drop 4 d))
          \<and> identify py_int (Datagram d) \<noteq> Exit 1)
   \<and> (8208 \<le> length d \<and> py_int (take 2 (drop 1 d)) = Some a
          \<and> py_int (take 2 (drop 5 d)) = Some b
        \<longrightarrow> identify py_int (Datagram d)
            = Proceeds \<lparr> signal_I = take 4 d, signal_Q = take 4 (drop 4 d),
                         dss_I = a, dss_Q = b, band_I = d ! 0, band_Q = d ! 4 \<rparr>)
   \<and> (length d < 8208 \<longrightarrow> sniff_signal (Datagram d) = Died StructError)"
proof -
  have t: "sniff_signal Timeout = Exit 1" "identify py_int Timeout = Exit 1"
    by (simp_all add: sniff_signal_def identify_def)
  have n: "identify py_int (Datagram d) \<noteq> Exit 1" if "8208 \<le> length d"
    using sniff_signal_full [OF that]
    by (simp add: identify_def split: option.splits)
  have p: "identify py_int (Datagram d)
            = Proceeds \<lparr> signal_I = take 4 d, signal_Q = take 4 (drop 4 d),
                         dss_I = a, dss_Q = b, band_I = d ! 0, band_Q = d ! 4 \<rparr>"
    if "8208 \<le> length d" "py_int (take 2 (drop 1 d)) = Some a"
       "py_int (take 2 (drop 5 d)) = Some b"
  proof -
    from that(1) have i: "take 2 (drop 1 (take 4 d)) = take 2 (drop 1 d)"
      by (simp add: drop_take)
    have q: "take 2 (drop 1 (take 4 (drop 4 d))) = take 2 (drop 5 d)"
      by (simp add: drop_take)
    from that(1) have b0: "take 4 d ! 0 = d ! 0" by simp
    from that(1) have b4: "take 4 (drop 4 d) ! 0 = d ! 4" by simp
    show ?thesis
      unfolding identify_def sniff_signal_full [OF that(1)]
      by (simp only: startup.case prod.case i q that(2,3) option.case b0 b4)
  qed
  from t n p sniff_signal_full sniff_signal_short show ?thesis by blast
qed

theorem first_packet_witness:
  "8208 \<le> length ([88, 49, 52, 73, 88, 49, 52, 81] @ replicate 8200 (0 :: byte))
   \<and> (\<lambda>s. if s = [49, 52 :: byte] then Some 14 else None) (take 2 (drop 1 ([88, 49, 52, 73, 88, 49, 52, 81] @ replicate 8200 (0 :: byte)))) = Some 14
   \<and> (\<lambda>s. if s = [49, 52 :: byte] then Some 14 else None) (take 2 (drop 5 ([88, 49, 52, 73, 88, 49, 52, 81] @ replicate 8200 (0 :: byte)))) = Some 14
   \<and> length ([] :: byte list) < 8208
   \<and> sniff_signal (Datagram ([88, 49, 52, 73, 88, 49, 52, 81] @ replicate 8200 (0 :: byte))) = Proceeds ([88, 49, 52, 73], [88, 49, 52, 81])
   \<and> identify (\<lambda>s. if s = [49, 52 :: byte] then Some 14 else None) (Datagram ([88, 49, 52, 73, 88, 49, 52, 81] @ replicate 8200 (0 :: byte))) \<noteq> Exit 1
   \<and> identify (\<lambda>s. if s = [49, 52 :: byte] then Some 14 else None) (Datagram ([88, 49, 52, 73, 88, 49, 52, 81] @ replicate 8200 (0 :: byte)))
       = Proceeds \<lparr> signal_I = [88, 49, 52, 73], signal_Q = [88, 49, 52, 81],
                    dss_I = 14, dss_Q = 14, band_I = 88, band_Q = 88 \<rparr>
   \<and> sniff_signal (Datagram []) = Died StructError"
proof -
  let ?d = "([88, 49, 52, 73, 88, 49, 52, 81] @ replicate 8200 (0 :: byte))"
  let ?p = "(\<lambda>s. if s = [49, 52 :: byte] then Some 14 else None)"
  have h1: "8208 \<le> length ?d" by simp
  have h2: "?p (take 2 (drop 1 ?d)) = Some 14" by simp
  have h3: "?p (take 2 (drop 5 ?d)) = Some 14" by simp
  have h4: "length ([] :: byte list) < 8208" by simp
  have v: "take 4 ?d = [88, 49, 52, 73]" "take 4 (drop 4 ?d) = [88, 49, 52, 81]"
    "?d ! 0 = 88" "?d ! 4 = 88"
    by simp_all
  note r = first_packet [where d = ?d and py_int = ?p and a = 14 and b = 14]
  note e = first_packet [where d = "[]" and py_int = ?p and a = 14 and b = 14]
  from r h1 have s: "sniff_signal (Datagram ?d) = Proceeds (take 4 ?d, take 4 (drop 4 ?d))"
    and n: "identify ?p (Datagram ?d) \<noteq> Exit 1" by blast+
  from r h1 h2 h3 have i: "identify ?p (Datagram ?d)
       = Proceeds \<lparr> signal_I = take 4 ?d, signal_Q = take 4 (drop 4 ?d),
                    dss_I = 14, dss_Q = 14, band_I = ?d ! 0, band_Q = ?d ! 4 \<rparr>"
    by blast
  from e h4 have x: "sniff_signal (Datagram []) = Died StructError" by blast
  from h1 h2 h3 h4 s n i x show ?thesis unfolding v by blast
qed

end
